theory Spec2Isabelle
  imports Complex_Main "HOL-Library.Log_Nat" "HOL-Library.Word"
begin

section \<open>JavaScript numbers\<close>

text \<open>
  Every number of the program is an IEEE-754 binary64 value. A finite one is modelled by
  the rational it denotes. Quantities that are integers throughout (pixel counts, grid
  sizes, margins, loop counters) are typed \<open>int\<close> or \<open>nat\<close>, and their sums, differences,
  products and remainders are the exact ones: a binary64 holds every integer up to
  \<open>2 ^ 53\<close> in magnitude, so these operations do not round in that range. A division, and
  any operation with an operand that is not an integer, rounds its exact result to the
  nearest binary64 (ties to even): that is \<open>fl\<close>. The exponent range is not modelled
  (no overflow to Infinity, no subnormals); the magnitudes met here stay far inside it.
\<close>

definition rne :: "rat \<Rightarrow> int" where
  \<comment> \<open>round to the nearest integer, ties to the even one\<close>
  "rne y = (let n = \<lfloor>y\<rfloor>; f = y - of_int n in
     if f < 1/2 then n else if 1/2 < f then n + 1 else if even n then n else n + 1)"

definition ilog2 :: "rat \<Rightarrow> int" where
  \<comment> \<open>the binary exponent \<open>e\<close> of a positive \<open>x\<close>: \<open>2 ^ e \<le> x < 2 ^ (e + 1)\<close>\<close>
  "ilog2 x = (if 1 \<le> x then bitlen \<lfloor>x\<rfloor> - 1 else - bitlen (\<lceil>1 / x\<rceil> - 1))"

definition ulp :: "rat \<Rightarrow> rat" where
  \<comment> \<open>the spacing of the binary64 values in the binade of \<open>x\<close> (53 significant bits)\<close>
  "ulp x = 2 powi (ilog2 \<bar>x\<bar> - 52)"

definition fl :: "rat \<Rightarrow> rat" where
  "fl x = (if x = 0 then 0 else of_int (rne (x / ulp x)) * ulp x)"

definition fdiv :: "rat \<Rightarrow> rat \<Rightarrow> rat" where
  \<comment> \<open>\<open>a / b\<close> for a divisor that is not zero\<close>
  "fdiv a b = fl (a / b)"

definition jdiv :: "rat \<Rightarrow> rat \<Rightarrow> rat option" where
  \<comment> \<open>\<open>a / b\<close>; \<open>None\<close> where the source gets Infinity or NaN from a zero divisor,
      values the model does not follow\<close>
  "jdiv a b = (if b = 0 then None else Some (fdiv a b))"

definition jmul :: "rat \<Rightarrow> rat \<Rightarrow> rat" where
  "jmul a b = fl (a * b)"

definition jadd :: "rat \<Rightarrow> rat \<Rightarrow> rat" where
  "jadd a b = fl (a + b)"

definition jsub :: "rat \<Rightarrow> rat \<Rightarrow> rat" where
  "jsub a b = fl (a - b)"

definition Math_round :: "rat \<Rightarrow> int" where
  \<comment> \<open>the nearest integer, a tie going to the larger one\<close>
  "Math_round x = \<lfloor>x + 1/2\<rfloor>"

definition Math_floor :: "rat \<Rightarrow> int" where
  "Math_floor x = \<lfloor>x\<rfloor>"

definition Math_ceil :: "rat \<Rightarrow> int" where
  "Math_ceil x = \<lceil>x\<rceil>"

definition js_rem :: "int \<Rightarrow> int \<Rightarrow> int" where
  \<comment> \<open>\<open>a % b\<close> on integers, \<open>b\<close> not zero: the sign of the dividend\<close>
  "js_rem a b = sgn a * (\<bar>a\<bar> mod \<bar>b\<bar>)"


section \<open>JavaScript strings\<close>

text \<open>A string is a sequence of 16-bit code units.\<close>

type_synonym jschar = "16 word"
type_synonym jsstring = "jschar list"

definition js :: "string \<Rightarrow> jsstring" where
  \<comment> \<open>an ASCII literal\<close>
  "js s = map of_char s"

definition isWhiteSpace :: "jschar \<Rightarrow> bool" where
  \<comment> \<open>WhiteSpace and LineTerminator of ECMAScript: TAB, LF, VT, FF, CR, SP, NBSP,
      U+1680, U+2000 to U+200A, U+2028, U+2029, U+202F, U+205F, U+3000, U+FEFF\<close>
  "isWhiteSpace c \<longleftrightarrow>
     c = 9 \<or> c = 10 \<or> c = 11 \<or> c = 12 \<or> c = 13 \<or> c = 32 \<or> c = 160 \<or> c = 5760 \<or>
     (8192 \<le> c \<and> c \<le> 8202) \<or> c = 8232 \<or> c = 8233 \<or> c = 8239 \<or> c = 8287 \<or>
     c = 12288 \<or> c = 65279"

definition trimStart :: "jsstring \<Rightarrow> jsstring" where
  "trimStart s = dropWhile isWhiteSpace s"

definition trim :: "jsstring \<Rightarrow> jsstring" where
  "trim s = rev (dropWhile isWhiteSpace (rev (dropWhile isWhiteSpace s)))"

definition digitValue :: "jschar \<Rightarrow> nat option" where
  "digitValue c =
     (if 48 \<le> c \<and> c \<le> 57 then Some (unat c - 48)
      else if 97 \<le> c \<and> c \<le> 122 then Some (unat c - 87)
      else if 65 \<le> c \<and> c \<le> 90 then Some (unat c - 55)
      else None)"

definition isDigit :: "nat \<Rightarrow> jschar \<Rightarrow> bool" where
  "isDigit R c = (case digitValue c of Some d \<Rightarrow> d < R | None \<Rightarrow> False)"

definition digitsValue :: "nat \<Rightarrow> jsstring \<Rightarrow> nat" where
  "digitsValue R Z = foldl (\<lambda>a c. a * R + (case digitValue c of Some d \<Rightarrow> d | None \<Rightarrow> 0)) 0 Z"

definition parseInt :: "jsstring \<Rightarrow> int option" where
  \<comment> \<open>\<open>Number.parseInt(string)\<close> with no radix; \<open>None\<close> is NaN. Leading white space is
      skipped, then a sign, then \<open>0x\<close> or \<open>0X\<close> selects radix 16, then the longest run of
      digits is read and the rest ignored.\<close>
  "parseInt string =
     (let S = trimStart string;
          sign = (if S \<noteq> [] \<and> hd S = 45 then - 1 else 1);
          S1 = (if S \<noteq> [] \<and> (hd S = 43 \<or> hd S = 45) then tl S else S);
          hex = (2 \<le> length S1 \<and> S1 ! 0 = 48 \<and> (S1 ! 1 = 120 \<or> S1 ! 1 = 88));
          R = (if hex then 16 else 10);
          S2 = (if hex then drop 2 S1 else S1);
          Z = takeWhile (isDigit R) S2
      in if Z = [] then None
         else Some (sign * \<lfloor>fl (of_nat (digitsValue R Z))\<rfloor>))"


section \<open>pdf-generator.tsx: the file name\<close>

definition invalidChars :: "jschar list" where
  \<comment> \<open>the class \<open>[/\\?%*:|"<>]\<close> of the regular expression: \<open>/\<close> 47, \<open>\\\<close> 92, \<open>?\<close> 63,
      \<open>%\<close> 37, \<open>*\<close> 42, \<open>:\<close> 58, \<open>|\<close> 124, \<open>"\<close> 34, \<open><\<close> 60, \<open>>\<close> 62\<close>
  "invalidChars = [47, 92, 63, 37, 42, 58, 124, 34, 60, 62]"

definition sanitizeFilename :: "jsstring \<Rightarrow> jsstring" where
  \<comment> \<open>\<open>name.replace(/[/\\?%*:|"<>]/g, "-")\<close>; \<open>-\<close> is 45\<close>
  "sanitizeFilename name = map (\<lambda>c. if c \<in> set invalidChars then 45 else c) name"

definition saveFilename :: "jsstring \<Rightarrow> jsstring" where
  \<comment> \<open>the argument of \<open>pdf.save\<close> in \<open>generatePDF\<close>\<close>
  "saveFilename pdfFilename =
     (let filename = (if trim pdfFilename \<noteq> [] then sanitizeFilename (trim pdfFilename)
                      else js ''photo-collection'')
      in filename @ js ''.pdf'')"


section \<open>pdf-generator.tsx: the grid of a page\<close>

definition gridInput :: "jsstring \<Rightarrow> int" where
  \<comment> \<open>\<open>Number.parseInt(e.target.value) || 1\<close>, the value the \<open>onChange\<close> handlers of the
      Rows and Columns fields store in \<open>customRows\<close> and \<open>customCols\<close>: NaN and 0 are
      falsy and give 1, every other integer is kept\<close>
  "gridInput v = (case parseInt v of None \<Rightarrow> 1 | Some n \<Rightarrow> if n = 0 then 1 else n)"

datatype ImageLayout = Layout1 | Layout2 | Layout4 | LayoutCustom

datatype PageSize = a4 | letter | legal | tabloid

datatype PageOrientation = portrait | landscape

record Grid =
  imagesPerPage :: int
  cols :: int
  rows :: int

definition layoutGrid :: "ImageLayout \<Rightarrow> int \<Rightarrow> int \<Rightarrow> Grid" where
  \<comment> \<open>the \<open>switch (imageLayout)\<close> of \<open>generatePDF\<close>\<close>
  "layoutGrid imageLayout customCols customRows =
     (case imageLayout of
        Layout1 \<Rightarrow> \<lparr>imagesPerPage = 1, cols = 1, rows = 1\<rparr>
      | Layout2 \<Rightarrow> \<lparr>imagesPerPage = 2, cols = 1, rows = 2\<rparr>
      | Layout4 \<Rightarrow> \<lparr>imagesPerPage = 4, cols = 2, rows = 2\<rparr>
      | LayoutCustom \<Rightarrow>
          \<lparr>imagesPerPage = customCols * customRows, cols = customCols, rows = customRows\<rparr>)"

definition PAGE_SIZES :: "PageSize \<Rightarrow> int \<times> int" where
  \<comment> \<open>width and height in millimetres\<close>
  "PAGE_SIZES pageSize =
     (case pageSize of a4 \<Rightarrow> (210, 297) | letter \<Rightarrow> (216, 279)
      | legal \<Rightarrow> (216, 356) | tabloid \<Rightarrow> (279, 432))"

record Placement =
  itemIndex :: nat    \<comment> \<open>\<open>i\<close>, as in the alias \<open>img-i\<close>\<close>
  onPage :: nat       \<comment> \<open>the page of the document that is current at the call, from 0\<close>
  pageIndex :: int
  rowIndex :: int
  colIndex :: int
  posX :: rat
  posY :: rat
  drawWidth :: rat
  drawHeight :: rat

record Pdf =
  pages :: nat                \<comment> \<open>a new document has one page; \<open>addPage\<close> appends one\<close>
  images :: "Placement list"  \<comment> \<open>the calls of \<open>addImage\<close>, in order\<close>
  savedAs :: "jsstring option"

record Settings =
  pageSize :: PageSize
  orientation :: PageOrientation
  imageLayout :: ImageLayout
  margin :: int
  title :: jsstring
  customRows :: int
  customCols :: int
  pdfFilename :: jsstring

definition pageExtent :: "Settings \<Rightarrow> int \<times> int" where
  \<comment> \<open>\<open>pageWidth\<close> and \<open>pageHeight\<close>, swapped for landscape\<close>
  "pageExtent st =
     (case PAGE_SIZES (pageSize st) of (pw, ph) \<Rightarrow>
        if orientation st = landscape then (ph, pw) else (pw, ph))"

definition titleSpace :: "Settings \<Rightarrow> int" where
  "titleSpace st = (if title st \<noteq> [] then 20 else 0)"

definition availableWidth :: "Settings \<Rightarrow> int" where
  "availableWidth st = fst (pageExtent st) - 2 * margin st"

definition availableHeight :: "Settings \<Rightarrow> int" where
  "availableHeight st = snd (pageExtent st) - 2 * margin st - titleSpace st"

definition imageWidth :: "Settings \<Rightarrow> rat" where
  "imageWidth st =
     fdiv (of_int (availableWidth st)) (of_int (cols (layoutGrid (imageLayout st) (customCols st) (customRows st))))"

definition imageHeight :: "Settings \<Rightarrow> rat" where
  "imageHeight st =
     fdiv (of_int (availableHeight st)) (of_int (rows (layoutGrid (imageLayout st) (customCols st) (customRows st))))"

definition placeImage :: "Settings \<Rightarrow> nat \<Rightarrow> Pdf \<Rightarrow> Pdf" where
  \<comment> \<open>one round of the loop \<open>for (let i = 0; i < totalImages; i++)\<close>. A failing
      \<open>addImage\<close> is caught and logged by the source and changes no position, so the record
      of the call stands for the attempt. The title drawn on each page and the progress
      shown while the document is built are left out.\<close>
  "placeImage st i pdf =
     (let g = layoutGrid (imageLayout st) (customCols st) (customRows st);
          pageIndex = Math_floor (fdiv (of_nat i) (of_int (imagesPerPage g)));
          imageIndexOnPage = js_rem (int i) (imagesPerPage g);
          rowIndex = Math_floor (fdiv (of_int imageIndexOnPage) (of_int (cols g)));
          colIndex = js_rem imageIndexOnPage (cols g);
          pdf1 = (if imageIndexOnPage = 0 \<and> 0 < i then pdf\<lparr>pages := pages pdf + 1\<rparr> else pdf);
          horizontalSpacing = margin st;
          verticalSpacing = margin st + titleSpace st;
          x = jadd (of_int (margin st)) (jmul (of_int colIndex) (imageWidth st));
          y = jadd (of_int verticalSpacing) (jmul (of_int rowIndex) (imageHeight st))
      in pdf1\<lparr>images := images pdf1 @
           [\<lparr>itemIndex = i, onPage = pages pdf1 - 1, pageIndex = pageIndex, rowIndex = rowIndex,
             colIndex = colIndex, posX = x, posY = y,
             drawWidth = jsub (imageWidth st) (fdiv (of_int horizontalSpacing) 2),
             drawHeight = jsub (imageHeight st) (fdiv (of_int horizontalSpacing) 2)\<rparr>]\<rparr>)"

definition placeImages :: "Settings \<Rightarrow> nat \<Rightarrow> Pdf" where
  \<comment> \<open>the loop \<open>for (let i = 0; i < totalImages; i++)\<close> on the new document\<close>
  "placeImages st totalImages =
     fold (placeImage st) [0..<totalImages] \<lparr>pages = 1, images = [], savedAs = None\<rparr>"

datatype failure = NoImages | ZeroGrid

definition generatePDF :: "Settings \<Rightarrow> nat \<Rightarrow> failure + Pdf" where
  \<comment> \<open>\<open>totalImages\<close> is \<open>arrangedImages.length\<close>. With no image the source returns at
      once. A grid with a zero side makes the source divide by zero; the model stops there
      (\<open>ZeroGrid\<close>); the fields of the page cannot produce it, since they store 1 for 0.\<close>
  "generatePDF st totalImages =
     (if totalImages = 0 then Inl NoImages
      else if imagesPerPage (layoutGrid (imageLayout st) (customCols st) (customRows st)) = 0
        then Inl ZeroGrid
      else Inr ((placeImages st totalImages)\<lparr>savedAs := Some (saveFilename (pdfFilename st))\<rparr>))"

definition totalPages :: "Settings \<Rightarrow> nat \<Rightarrow> int" where
  \<comment> \<open>\<open>Math.ceil(totalImages / imagesPerPage)\<close>, which the source computes and does not use\<close>
  "totalPages st totalImages =
     Math_ceil (fdiv (of_nat totalImages)
       (of_int (imagesPerPage (layoutGrid (imageLayout st) (customCols st) (customRows st)))))"


section \<open>image-results.tsx: the target size\<close>

text \<open>
  The file holds three components. \<open>processImageInBrowser\<close> is the function of
  \<open>ImageUploader\<close> that sizes the canvas; \<open>calculateTargetDimensions\<close> is the function of
  \<open>ImagePreview\<close> that sizes the preview.
\<close>

datatype ResizeMode = ModeNone | ModeDimensions | ModePercentage | ModePreset

datatype PresetSize = small | medium | large | hd_preset | fullhd | uhd_4k

record ResizeDimensions =
  width :: int
  height :: int

definition PRESET_SIZES :: "PresetSize \<Rightarrow> ResizeDimensions" where
  "PRESET_SIZES presetSize =
     (case presetSize of
        small \<Rightarrow> \<lparr>width = 640, height = 480\<rparr>
      | medium \<Rightarrow> \<lparr>width = 1024, height = 768\<rparr>
      | large \<Rightarrow> \<lparr>width = 1600, height = 1200\<rparr>
      | hd_preset \<Rightarrow> \<lparr>width = 1280, height = 720\<rparr>
      | fullhd \<Rightarrow> \<lparr>width = 1920, height = 1080\<rparr>
      | uhd_4k \<Rightarrow> \<lparr>width = 3840, height = 2160\<rparr>)"

definition scaleByMinRatio :: "int \<Rightarrow> int \<Rightarrow> int \<Rightarrow> int \<Rightarrow> ResizeDimensions option" where
  \<comment> \<open>the five lines from \<open>const widthRatio\<close> to \<open>targetHeight = Math.round(...)\<close>, which
      the source has twice in each function (both sides given, and preset)\<close>
  "scaleByMinRatio imgWidth imgHeight targetWidth targetHeight =
     (case jdiv (of_int targetWidth) (of_int imgWidth) of None \<Rightarrow> None
      | Some widthRatio \<Rightarrow>
     (case jdiv (of_int targetHeight) (of_int imgHeight) of None \<Rightarrow> None
      | Some heightRatio \<Rightarrow>
          let ratio = min widthRatio heightRatio
          in Some \<lparr>width = Math_round (jmul (of_int imgWidth) ratio),
                   height = Math_round (jmul (of_int imgHeight) ratio)\<rparr>))"

definition targetDimensions ::
  "ResizeMode \<Rightarrow> ResizeDimensions \<Rightarrow> int \<Rightarrow> PresetSize \<Rightarrow> bool \<Rightarrow> int \<Rightarrow> int
     \<Rightarrow> ResizeDimensions option" where
  \<comment> \<open>\<open>targetWidth\<close> and \<open>targetHeight\<close> of \<open>processImageInBrowser\<close> when it reaches
      \<open>onProgress(60)\<close>, for an image of \<open>imgWidth\<close> by \<open>imgHeight\<close> pixels. A side of
      \<open>resizeDimensions\<close> that is 0 is falsy: not given. \<open>resizePercentage\<close> is the value of
      a slider of step 1. \<open>None\<close>: a division by a zero side of the image.\<close>
  "targetDimensions resizeMode resizeDimensions resizePercentage presetSize maintainAspectRatio
       imgWidth imgHeight =
     (case resizeMode of
        ModeNone \<Rightarrow> Some \<lparr>width = imgWidth, height = imgHeight\<rparr>
      | ModeDimensions \<Rightarrow>
          let targetWidth = (if width resizeDimensions \<noteq> 0 then width resizeDimensions else imgWidth);
              targetHeight = (if height resizeDimensions \<noteq> 0 then height resizeDimensions else imgHeight)
          in if maintainAspectRatio then
               if width resizeDimensions \<noteq> 0 \<and> height resizeDimensions = 0 then
                 (case jdiv (of_int imgHeight) (of_int imgWidth) of None \<Rightarrow> None
                  | Some q \<Rightarrow>
                      Some \<lparr>width = targetWidth, height = Math_round (jmul q (of_int targetWidth))\<rparr>)
               else if width resizeDimensions = 0 \<and> height resizeDimensions \<noteq> 0 then
                 (case jdiv (of_int imgWidth) (of_int imgHeight) of None \<Rightarrow> None
                  | Some q \<Rightarrow>
                      Some \<lparr>width = Math_round (jmul q (of_int targetHeight)), height = targetHeight\<rparr>)
               else scaleByMinRatio imgWidth imgHeight targetWidth targetHeight
             else Some \<lparr>width = targetWidth, height = targetHeight\<rparr>
      | ModePercentage \<Rightarrow>
          Some \<lparr>width = Math_round (fdiv (of_int (imgWidth * resizePercentage)) 100),
                height = Math_round (fdiv (of_int (imgHeight * resizePercentage)) 100)\<rparr>
      | ModePreset \<Rightarrow>
          let preset = PRESET_SIZES presetSize;
              targetWidth = width preset;
              targetHeight = height preset
          in if maintainAspectRatio
             then scaleByMinRatio imgWidth imgHeight targetWidth targetHeight
             else Some \<lparr>width = targetWidth, height = targetHeight\<rparr>)"

definition calculateTargetDimensions ::
  "ResizeMode \<Rightarrow> ResizeDimensions \<Rightarrow> int \<Rightarrow> PresetSize \<Rightarrow> bool \<Rightarrow> int \<Rightarrow> int
     \<Rightarrow> ResizeDimensions option" where
  \<comment> \<open>of \<open>ImagePreview\<close>: \<open>null\<close> (\<open>None\<close>) for an image whose width or height is missing
      or 0, and otherwise the same statements as in \<open>processImageInBrowser\<close>, with the
      table \<open>PRESET_SIZES\<close> that \<open>ImageUploader\<close> passes as \<open>presetSizes\<close>\<close>
  "calculateTargetDimensions resizeMode resizeDimensions resizePercentage presetSize
       maintainAspectRatio imgWidth imgHeight =
     (if imgWidth = 0 \<or> imgHeight = 0 then None
      else targetDimensions resizeMode resizeDimensions resizePercentage presetSize
             maintainAspectRatio imgWidth imgHeight)"


section \<open>image-results.tsx: the progress reports\<close>

datatype HeicStep = NotHeic | ImportFailed | ConversionFailed | Converted

definition heicProgress :: "HeicStep \<Rightarrow> int list" where
  \<comment> \<open>the reports between \<open>onProgress(5)\<close> and the file reader: a file that is not HEIC
      reports 30; a HEIC file reports 10, then 20 once \<open>heic2any\<close> is imported, then 30
      once it has converted; a failure of either step is caught and ends these reports\<close>
  "heicProgress s =
     (case s of NotHeic \<Rightarrow> [30] | ImportFailed \<Rightarrow> [10]
      | ConversionFailed \<Rightarrow> [10, 20] | Converted \<Rightarrow> [10, 20, 30])"

definition formatProgress :: "nat \<Rightarrow> nat \<Rightarrow> int" where
  \<comment> \<open>\<open>Math.floor(60 + (completedFormats / totalFormats) * 40)\<close>\<close>
  "formatProgress completedFormats totalFormats =
     Math_floor (jadd 60 (jmul (fdiv (of_nat completedFormats) (of_nat totalFormats)) 40))"

function processFormat :: "nat \<Rightarrow> nat \<Rightarrow> nat \<Rightarrow> int list" where
  "processFormat totalFormats completedFormats formatIndex =
     (if totalFormats \<le> formatIndex then [100]
      else formatProgress (completedFormats + 1) totalFormats
             # processFormat totalFormats (completedFormats + 1) (formatIndex + 1))"
  by pat_completeness auto
termination
  by (relation "measure (\<lambda>(totalFormats, completedFormats, formatIndex). totalFormats - formatIndex)") auto

declare processFormat.simps [simp del]

definition processImageProgress :: "HeicStep \<Rightarrow> nat \<Rightarrow> int list" where
  \<comment> \<open>the arguments of \<open>onProgress\<close> during one call of \<open>processImageInBrowser\<close>, in order,
      for \<open>formats.length = totalFormats\<close>; when the file or the image does not load, the
      reports stop before the end of this list\<close>
  "processImageProgress s totalFormats =
     [5] @ heicProgress s @ [40, 50, 60] @ processFormat totalFormats 0 0"

fun addFiles :: "nat \<Rightarrow> nat \<Rightarrow> bool list \<Rightarrow> int list" where
  \<comment> \<open>the loop \<open>for (const result of validResults)\<close>; an element of the list tells whether
      fetching that result succeeds (a failure is caught and counts no file)\<close>
  "addFiles totalFiles processedFiles [] = []"
| "addFiles totalFiles processedFiles (fetched # rest) =
     (if fetched
      then Math_round (jmul (fdiv (of_nat (processedFiles + 1)) (of_nat totalFiles)) 100)
             # addFiles totalFiles (processedFiles + 1) rest
      else addFiles totalFiles processedFiles rest)"

definition downloadAllAsZipProgress :: "bool list \<Rightarrow> rat list \<Rightarrow> int list" where
  \<comment> \<open>the arguments of \<open>setDownloadProgress\<close> from the start of \<open>downloadAllAsZip\<close> to the
      end of \<open>generateAsync\<close>: \<open>validResults\<close> with the outcome of each fetch, and the
      values of \<open>metadata.percent\<close> that the archive library passes to the callback\<close>
  "downloadAllAsZipProgress validResults percents =
     [0] @ addFiles (length validResults) 0 validResults @ map Math_round percents"


section \<open>Rounding to binary64\<close>

lemma rne_of_int: "rne (of_int n) = n"
  by (simp add: rne_def)

lemma rne_lower: "\<lfloor>y\<rfloor> \<le> rne y"
  by (simp add: rne_def Let_def)

lemma rne_upper: "rne y \<le> \<lfloor>y\<rfloor> + 1"
  by (simp add: rne_def Let_def)

lemma rne_err: "\<bar>of_int (rne y) - y\<bar> \<le> 1/2"
proof -
  have "of_int \<lfloor>y\<rfloor> \<le> y" "y < of_int \<lfloor>y\<rfloor> + 1" by linarith+
  then show ?thesis
    by (auto simp: rne_def Let_def)
qed

lemma rne_mono: assumes "x \<le> y" shows "rne x \<le> rne y"
proof (cases "\<lfloor>x\<rfloor> = \<lfloor>y\<rfloor>")
  case True
  with assms show ?thesis by (auto simp: rne_def Let_def)
next
  case False
  with assms have "\<lfloor>x\<rfloor> + 1 \<le> \<lfloor>y\<rfloor>" using floor_mono[OF assms] by linarith
  with rne_upper[of x] rne_lower[of y] show ?thesis by linarith
qed

lemma powi_neg: "0 \<le> k \<Longrightarrow> (2::rat) powi (- k) = 1 / 2 ^ nat k"
  by (simp add: power_int_def inverse_eq_divide power_one_over[symmetric])

lemma powi_nonneg: "0 \<le> k \<Longrightarrow> (2::rat) powi k = 2 ^ nat k"
  by (simp add: power_int_def)

lemma bitlen_pos: "0 < n \<Longrightarrow> 1 \<le> bitlen n"
  using bitlen_eq_zero_iff[of n] bitlen_nonneg[of n] by linarith

lemma ilog2_ge1:
  assumes "1 \<le> x"
  shows "2 powi (ilog2 x) \<le> x" and "x < 2 powi (ilog2 x + 1)"
proof -
  define n where "n = \<lfloor>x\<rfloor>"
  have n: "0 < n" using assms by (simp add: n_def)
  have b: "1 \<le> bitlen n" by (rule bitlen_pos[OF n])
  have e: "ilog2 x = bitlen n - 1" using assms by (simp add: ilog2_def n_def)
  have "(2::rat) ^ nat (bitlen n - 1) \<le> of_int n" using bitlen_bounds[OF n] by simp
  also have "\<dots> \<le> x" by (simp add: n_def)
  finally show "2 powi (ilog2 x) \<le> x" using b by (simp add: e powi_nonneg)
  have "n + 1 \<le> 2 ^ nat (bitlen n)" using bitlen_bounds[OF n] by simp
  then have "(of_int (n + 1) :: rat) \<le> 2 ^ nat (bitlen n)" by (simp only: of_int_le_numeral_power_cancel_iff)
  moreover have "x < of_int (n + 1)" by (simp add: n_def) linarith
  ultimately have "x < 2 ^ nat (bitlen n)" by linarith
  then show "x < 2 powi (ilog2 x + 1)" using b by (simp add: e powi_nonneg)
qed

lemma ilog2_lt1:
  assumes "0 < x" "x < 1"
  shows "2 powi (ilog2 x) \<le> x" and "x < 2 powi (ilog2 x + 1)"
proof -
  define m where "m = \<lceil>1 / x\<rceil> - 1"
  have x1: "1 < 1 / x" using assms by simp
  have m: "0 < m" using x1 by (simp add: m_def)
  have b: "1 \<le> bitlen m" by (rule bitlen_pos[OF m])
  have e: "ilog2 x = - bitlen m" using assms by (simp add: ilog2_def m_def)
  have "m + 1 \<le> 2 ^ nat (bitlen m)" using bitlen_bounds[OF m] by simp
  then have "(of_int (m + 1) :: rat) \<le> 2 ^ nat (bitlen m)" by (simp only: of_int_le_numeral_power_cancel_iff)
  moreover have "1 / x \<le> of_int (m + 1)" by (simp add: m_def)
  ultimately have "1 / x \<le> 2 ^ nat (bitlen m)" by linarith
  then have "1 / 2 ^ nat (bitlen m) \<le> x" using assms by (simp add: field_simps)
  then show "2 powi (ilog2 x) \<le> x" using b by (simp add: e powi_neg)
  have "(2::rat) ^ nat (bitlen m - 1) \<le> of_int m" using bitlen_bounds[OF m] by simp
  moreover have "of_int m < 1 / x" by (simp add: m_def) linarith
  ultimately have "2 ^ nat (bitlen m - 1) < 1 / x" by linarith
  then have "x < 1 / 2 ^ nat (bitlen m - 1)" using assms by (simp add: field_simps)
  moreover have "- bitlen m + 1 = - (bitlen m - 1)" by simp
  ultimately show "x < 2 powi (ilog2 x + 1)" using b by (simp only: e powi_neg)
qed

lemma ilog2_bounds:
  assumes "0 < x"
  shows "2 powi (ilog2 x) \<le> x" and "x < 2 powi (ilog2 x + 1)"
  using ilog2_ge1[of x] ilog2_lt1[of x] assms by (cases "1 \<le> x"; simp)+

lemma fl_pos_eq: "0 < x \<Longrightarrow> fl x = of_int (rne (x / ulp x)) * ulp x"
  by (simp add: fl_def)

lemma ulp_pos: "0 < ulp x"
  by (simp add: ulp_def)

lemma ulp_52: "2 powi (ilog2 \<bar>x\<bar>) = 2 ^ 52 * ulp x"
proof -
  have "(2::rat) powi (52 + (ilog2 \<bar>x\<bar> - 52)) = 2 powi 52 * 2 powi (ilog2 \<bar>x\<bar> - 52)"
    by (rule power_int_add) simp
  then show ?thesis by (simp add: ulp_def)
qed

lemma ulp_53: "2 powi (ilog2 \<bar>x\<bar> + 1) = 2 ^ 53 * ulp x"
proof -
  have "(2::rat) powi (53 + (ilog2 \<bar>x\<bar> - 52)) = 2 powi 53 * 2 powi (ilog2 \<bar>x\<bar> - 52)"
    by (rule power_int_add) simp
  moreover have "53 + (ilog2 \<bar>x\<bar> - 52) = ilog2 \<bar>x\<bar> + 1" by simp
  ultimately show ?thesis by (simp add: ulp_def)
qed

lemma scaled_range:
  assumes "0 < x"
  shows "2 ^ 52 \<le> x / ulp x" and "x / ulp x < 2 ^ 53"
proof -
  have a: "\<bar>x\<bar> = x" using assms by simp
  have "2 ^ 52 * ulp x \<le> x" using ilog2_bounds(1)[OF assms] ulp_52[of x] a by simp
  then show "2 ^ 52 \<le> x / ulp x" using ulp_pos[of x] by (simp add: pos_le_divide_eq)
  have "x < 2 ^ 53 * ulp x" using ilog2_bounds(2)[OF assms] ulp_53[of x] a by simp
  then show "x / ulp x < 2 ^ 53" using ulp_pos[of x] by (simp add: pos_divide_less_eq)
qed

lemma rne_scaled_range:
  assumes "0 < x"
  shows "2 ^ 52 \<le> rne (x / ulp x)" and "rne (x / ulp x) \<le> 2 ^ 53"
proof -
  have "rne (of_int (2 ^ 52)) \<le> rne (x / ulp x)"
    using scaled_range(1)[OF assms] by (intro rne_mono) simp
  then show "2 ^ 52 \<le> rne (x / ulp x)" by (simp only: rne_of_int)
  have "rne (x / ulp x) \<le> rne (of_int (2 ^ 53))"
    using scaled_range(2)[OF assms] by (intro rne_mono) simp
  then show "rne (x / ulp x) \<le> 2 ^ 53" by (simp only: rne_of_int)
qed

lemma fl_binade:
  assumes "0 < x"
  shows "2 powi (ilog2 x) \<le> fl x" and "fl x \<le> 2 powi (ilog2 x + 1)"
proof -
  have a: "\<bar>x\<bar> = x" using assms by simp
  have "(2::rat) ^ 52 \<le> of_int (rne (x / ulp x))"
    using rne_scaled_range(1)[OF assms] by simp
  then have "2 ^ 52 * ulp x \<le> of_int (rne (x / ulp x)) * ulp x"
    using ulp_pos[of x] by (simp only: mult_le_cancel_right_pos)
  then show "2 powi (ilog2 x) \<le> fl x"
    using ulp_52[of x] a fl_pos_eq[OF assms] by simp
  have "of_int (rne (x / ulp x)) \<le> (2::rat) ^ 53"
    using rne_scaled_range(2)[OF assms] by simp
  then have "of_int (rne (x / ulp x)) * ulp x \<le> 2 ^ 53 * ulp x"
    using ulp_pos[of x] by (simp only: mult_le_cancel_right_pos)
  then show "fl x \<le> 2 powi (ilog2 x + 1)"
    using ulp_53[of x] a fl_pos_eq[OF assms] by simp
qed

lemma fl_zero: "fl 0 = 0"
  by (simp add: fl_def)

lemma fl_pos: "0 < x \<Longrightarrow> 0 < fl x"
  using fl_binade(1)[of x] zero_less_power_int[of "2::rat" "ilog2 x"] by linarith

lemma fl_nonneg: "0 \<le> x \<Longrightarrow> 0 \<le> fl x"
  using fl_pos[of x] fl_zero by (cases "x = 0") auto

lemma ilog2_mono:
  assumes "0 < x" "x \<le> y"
  shows "ilog2 x \<le> ilog2 y"
proof (rule ccontr)
  assume "\<not> ilog2 x \<le> ilog2 y"
  then have "ilog2 y + 1 \<le> ilog2 x" by simp
  then have "(2::rat) powi (ilog2 y + 1) \<le> 2 powi (ilog2 x)"
    by (intro power_int_increasing) simp_all
  moreover have "y < 2 powi (ilog2 y + 1)" using assms by (intro ilog2_bounds(2)) simp
  moreover have "2 powi (ilog2 x) \<le> x" using assms by (intro ilog2_bounds(1))
  ultimately show False using assms by linarith
qed

lemma fl_mono_pos:
  assumes "0 < x" "x \<le> y"
  shows "fl x \<le> fl y"
proof (cases "ilog2 x = ilog2 y")
  case True
  have y: "0 < y" using assms by simp
  have u: "ulp x = ulp y" using True assms by (simp add: ulp_def)
  have "x / ulp y \<le> y / ulp y" using assms ulp_pos[of y] by (simp add: divide_right_mono)
  then have "rne (x / ulp y) \<le> rne (y / ulp y)" by (rule rne_mono)
  then have "(of_int (rne (x / ulp y)) :: rat) \<le> of_int (rne (y / ulp y))" by simp
  then have "of_int (rne (x / ulp y)) * ulp y \<le> of_int (rne (y / ulp y)) * ulp y"
    using ulp_pos[of y] by (simp only: mult_le_cancel_right_pos)
  then show ?thesis using fl_pos_eq[OF assms(1)] fl_pos_eq[OF y] u by simp
next
  case False
  have y: "0 < y" using assms by simp
  have "ilog2 x + 1 \<le> ilog2 y" using False ilog2_mono[OF assms] by simp
  then have "(2::rat) powi (ilog2 x + 1) \<le> 2 powi (ilog2 y)"
    by (intro power_int_increasing) simp_all
  then show ?thesis using fl_binade(2)[OF assms(1)] fl_binade(1)[OF y] by linarith
qed

lemma fl_mono:
  assumes "0 \<le> x" "x \<le> y"
  shows "fl x \<le> fl y"
proof (cases "x = 0")
  case True
  then show ?thesis using fl_nonneg[of y] assms by (simp add: fl_zero)
next
  case False
  then show ?thesis using fl_mono_pos[of x y] assms by simp
qed

lemma fl_err_ulp:
  assumes "0 < x"
  shows "\<bar>fl x - x\<bar> \<le> ulp x / 2"
proof -
  have "\<bar>of_int (rne (x / ulp x)) - x / ulp x\<bar> * ulp x \<le> 1/2 * ulp x"
    using rne_err[of "x / ulp x"] ulp_pos[of x] by (simp only: mult_le_cancel_right_pos)
  moreover have "\<bar>of_int (rne (x / ulp x)) - x / ulp x\<bar> * ulp x
      = \<bar>of_int (rne (x / ulp x)) * ulp x - x\<bar>"
  proof -
    have "\<bar>of_int (rne (x / ulp x)) - x / ulp x\<bar> * ulp x
        = \<bar>(of_int (rne (x / ulp x)) - x / ulp x) * ulp x\<bar>"
      using ulp_pos[of x] by (simp add: abs_mult)
    also have "(of_int (rne (x / ulp x)) - x / ulp x) * ulp x
        = of_int (rne (x / ulp x)) * ulp x - x"
      using ulp_pos[of x] by (simp add: algebra_simps)
    finally show ?thesis .
  qed
  ultimately show ?thesis using fl_pos_eq[OF assms] by simp
qed

lemma fl_err:
  assumes "0 < x"
  shows "\<bar>fl x - x\<bar> \<le> x / 2 ^ 53"
proof -
  have a: "\<bar>x\<bar> = x" using assms by simp
  have "2 ^ 52 * ulp x \<le> x" using ilog2_bounds(1)[OF assms] ulp_52[of x] a by simp
  then have "ulp x / 2 \<le> x / 2 ^ 53" by simp
  then show ?thesis using fl_err_ulp[OF assms] by linarith
qed

lemma fl_exact_dyadic:
  assumes "0 < m" "m < 2 ^ 53"
  shows "fl (of_int m / 2 ^ j) = of_int m / 2 ^ j"
proof -
  define x :: rat where "x = of_int m / 2 ^ j"
  have x: "0 < x" using assms by (simp add: x_def)
  have a: "\<bar>x\<bar> = x" using x by simp
  define d where "d = 52 - ilog2 x - int j"
  have "x < 2 ^ 53 / 2 ^ j" using assms by (simp add: x_def divide_strict_right_mono)
  also have "\<dots> = 2 powi (53 - int j)"
    by (simp add: power_int_diff)
  finally have xlt: "x < 2 powi (53 - int j)" .
  have d: "0 \<le> d"
  proof (rule ccontr)
    assume "\<not> 0 \<le> d"
    then have "53 - int j \<le> ilog2 x" by (simp add: d_def)
    then have "(2::rat) powi (53 - int j) \<le> 2 powi (ilog2 x)"
      by (intro power_int_increasing) simp_all
    then show False using xlt ilog2_bounds(1)[OF x] by linarith
  qed
  have "1 / ulp x = 2 powi (- (ilog2 x - 52))"
    unfolding ulp_def a by (rule power_int_minus_divide[symmetric])
  moreover have "1 / 2 ^ j = (2::rat) powi (- int j)"
    using power_int_minus_divide[of "2::rat" "int j"] by simp
  moreover have "(2::rat) powi (- int j) * 2 powi (- (ilog2 x - 52)) = 2 powi (- int j + - (ilog2 x - 52))"
    by (rule power_int_add[symmetric]) simp
  moreover have "- int j + - (ilog2 x - 52) = d" by (simp add: d_def)
  ultimately have "(1 / 2 ^ j) * (1 / ulp x) = (2::rat) powi d" by simp
  moreover have "x / ulp x = of_int m * ((1 / 2 ^ j) * (1 / ulp x))" by (simp add: x_def)
  ultimately have "x / ulp x = of_int m * 2 powi d" by (simp only:)
  also have "\<dots> = of_int (m * 2 ^ nat d)" using d by (simp add: powi_nonneg)
  finally have "rne (x / ulp x) = m * 2 ^ nat d" by (simp only: rne_of_int)
  moreover have "of_int (m * 2 ^ nat d) * ulp x = x"
    using \<open>x / ulp x = of_int m * 2 powi d\<close> d ulp_pos[of x] by (simp add: powi_nonneg field_simps)
  ultimately have "fl x = x" using fl_pos_eq[OF x] by simp
  then show ?thesis by (simp add: x_def)
qed

lemma fl_int: "0 \<le> n \<Longrightarrow> n < 2 ^ 53 \<Longrightarrow> fl (of_int n) = of_int n"
  using fl_exact_dyadic[of n 0] fl_zero by (cases "n = 0") auto

lemma fl_half_int: "0 \<le> n \<Longrightarrow> n < 2 ^ 52 \<Longrightarrow> fl (of_int n + 1/2) = of_int n + 1/2"
proof -
  assume "0 \<le> n" "n < 2 ^ 52"
  then have "fl (of_int (2 * n + 1) / 2 ^ 1) = of_int (2 * n + 1) / 2 ^ 1"
    by (intro fl_exact_dyadic) simp_all
  moreover have "of_int (2 * n + 1) / 2 ^ 1 = (of_int n + 1/2 :: rat)" by (simp add: field_simps)
  ultimately show ?thesis by (simp only:)
qed



section \<open>Quotients of integers\<close>

lemma fl_err_upper: "0 \<le> x \<Longrightarrow> fl x \<le> x + x / 2 ^ 53"
proof (cases "x = 0")
  case True
  then show ?thesis by (simp add: fl_zero)
next
  case False
  assume "0 \<le> x"
  with False have "0 < x" by simp
  from fl_err[OF this] show ?thesis by linarith
qed

lemma fl_err_lower: "0 \<le> x \<Longrightarrow> x - x / 2 ^ 53 \<le> fl x"
proof (cases "x = 0")
  case True
  then show ?thesis by (simp add: fl_zero)
next
  case False
  assume "0 \<le> x"
  with False have "0 < x" by simp
  from fl_err[OF this] show ?thesis by linarith
qed

lemma floor_fdiv:
  assumes "0 \<le> a" "a < 2 ^ 53" "0 < b"
  shows "Math_floor (fdiv (of_int a) (of_int b)) = a div b"
proof -
  define q where "q = a div b"
  define x :: rat where "x = of_int a / of_int b"
  have b': "(0::rat) < of_int b" using assms by simp
  have q0: "0 \<le> q" using assms by (simp add: q_def pos_imp_zdiv_nonneg_iff)
  have x0: "0 \<le> x" using assms by (simp add: x_def)
  have qb: "q * b \<le> a" using assms div_mult_mod_eq[of a b] pos_mod_sign[of b a]
    unfolding q_def by linarith
  have "q * 1 \<le> q * b" using q0 assms by (intro mult_left_mono) simp_all
  then have qa: "q \<le> a" using qb by simp
  note qb
  then have "of_int q * of_int b \<le> (of_int a :: rat)" by (metis of_int_le_iff of_int_mult)
  then have qx: "of_int q \<le> x" using b' by (simp add: x_def pos_le_divide_eq)
  have "fl (of_int q) \<le> fl x" using q0 qx by (intro fl_mono) simp_all
  then have lo: "of_int q \<le> fl x" using fl_int[of q] q0 qa assms by simp
  have "a = a div b * b + a mod b" by simp
  moreover have "a mod b < b" using assms by simp
  ultimately have "a < a div b * b + b" by linarith
  then have "a < (q + 1) * b" by (simp add: q_def algebra_simps)
  then have "a + 1 \<le> (q + 1) * b" by simp
  then have "(of_int (a + 1) :: rat) \<le> of_int ((q + 1) * b)" by (simp only: of_int_le_iff)
  then have ab: "(of_int a + 1 :: rat) \<le> (of_int q + 1) * of_int b" by simp
  define e :: rat where "e = of_int a / 2 ^ 53"
  have "(of_int a :: rat) < 2 ^ 53" using assms by simp
  then have "e < 1" by (simp add: e_def)
  then have "of_int a + e < (of_int q + 1) * (of_int b :: rat)" using ab by (simp add: algebra_simps)
  then have "of_int a + of_int a / 2 ^ 53 < (of_int q + 1) * (of_int b :: rat)" by (simp only: e_def)
  then have "(of_int a + of_int a / 2 ^ 53) / of_int b < (of_int q + 1 :: rat)"
    using b' by (simp add: pos_divide_less_eq)
  moreover have "(of_int a + of_int a / 2 ^ 53) / of_int b = x + x / 2 ^ 53"
    by (simp add: x_def add_divide_distrib)
  ultimately have "x + x / 2 ^ 53 < of_int q + 1" by simp
  then have hi: "fl x < of_int q + 1" using fl_err_upper[OF x0] by linarith
  have "\<lfloor>fl x\<rfloor> = q" using lo hi by (simp add: floor_unique)
  then show ?thesis by (simp add: Math_floor_def fdiv_def x_def q_def)
qed

lemma round_fdiv:
  assumes "0 \<le> a" "a < 2 ^ 52" "0 < b"
  shows "Math_round (fdiv (of_int a) (of_int b)) = Math_round (of_int a / of_int b)"
proof -
  define x :: rat where "x = of_int a / of_int b"
  define n where "n = Math_round x"
  have b': "(0::rat) < of_int b" using assms by simp
  have b1: "(1::rat) \<le> of_int b" using assms by simp
  have x0: "0 \<le> x" using assms by (simp add: x_def)
  have n0: "0 \<le> n" using x0 by (simp add: n_def Math_round_def)
  have nlo: "of_int n - 1/2 \<le> x" and nhi: "x < of_int n + 1/2"
    unfolding n_def Math_round_def by linarith+
  have xa: "x \<le> of_int a" using assms b1 by (simp add: x_def divide_le_eq mult_le_cancel_left1)
  have "of_int n \<le> (of_int a :: rat) + 1/2" using nlo xa by linarith
  then have "n \<le> a" by linarith
  have lo: "of_int n - 1/2 \<le> fl x"
  proof (cases "n = 0")
    case True
    then show ?thesis using fl_nonneg[OF x0] by simp
  next
    case False
    then have n1: "0 \<le> n - 1" using n0 by simp
    have "n - 1 < 2 ^ 52" using \<open>n \<le> a\<close> assms by simp
    then have e: "fl (of_int (n - 1) + 1/2) = of_int (n - 1) + 1/2" using n1 by (rule fl_half_int[rotated])
    have "fl (of_int (n - 1) + 1/2) \<le> fl x" using n1 nlo by (intro fl_mono) simp_all
    then show ?thesis using e by simp
  qed
  have "of_int a < (of_int n + 1/2) * (of_int b :: rat)" using nhi b' by (simp add: x_def pos_divide_less_eq)
  then have "2 * of_int a < (2 * of_int n + 1) * (of_int b :: rat)" by (simp add: algebra_simps)
  then have "(of_int (2 * a) :: rat) < of_int ((2 * n + 1) * b)" by simp
  then have "2 * a < (2 * n + 1) * b" by (simp only: of_int_less_iff)
  then have "2 * a + 1 \<le> (2 * n + 1) * b" by simp
  then have "(of_int (2 * a + 1) :: rat) \<le> of_int ((2 * n + 1) * b)" by (simp only: of_int_le_iff)
  define T :: rat where "T = of_int ((2 * n + 1) * b)"
  have ab: "2 * of_int a + 1 \<le> T" using \<open>(of_int (2 * a + 1) :: rat) \<le> of_int ((2 * n + 1) * b)\<close>
    by (simp add: T_def)
  define e :: rat where "e = of_int a / 2 ^ 53"
  have "(of_int a :: rat) < 2 ^ 52" using assms by simp
  then have "2 * e < 1" by (simp add: e_def)
  then have "2 * (of_int a + e) < T" using ab by (simp add: algebra_simps)
  moreover have "T = 2 * ((of_int n + 1/2) * (of_int b :: rat))" by (simp add: T_def algebra_simps)
  ultimately have "(of_int a + e) < (of_int n + 1/2) * (of_int b :: rat)" by (simp add: algebra_simps)
  then have "(of_int a + of_int a / 2 ^ 53) < (of_int n + 1/2) * (of_int b :: rat)" by (simp only: e_def)
  then have "(of_int a + of_int a / 2 ^ 53) / of_int b < (of_int n + 1/2 :: rat)"
    using b' by (simp add: pos_divide_less_eq)
  moreover have "(of_int a + of_int a / 2 ^ 53) / of_int b = x + x / 2 ^ 53"
    by (simp add: x_def add_divide_distrib)
  ultimately have "x + x / 2 ^ 53 < of_int n + 1/2" by simp
  then have hi: "fl x < of_int n + 1/2" using fl_err_upper[OF x0] by linarith
  have "\<lfloor>fl x + 1/2\<rfloor> = n" using lo hi by (intro floor_unique) linarith+
  then show ?thesis by (simp add: Math_round_def fdiv_def x_def n_def)
qed


section \<open>Strings\<close>

lemma dash_valid: "45 \<notin> set invalidChars"
  by (simp add: invalidChars_def)

lemma sanitize_clean:
  assumes "c \<in> set (sanitizeFilename s)"
  shows "c \<notin> set invalidChars"
proof -
  from assms have "c \<in> (\<lambda>d. if d \<in> set invalidChars then 45 else d) ` set s"
    unfolding sanitizeFilename_def by (simp only: set_map)
  then obtain d where c: "c = (if d \<in> set invalidChars then 45 else d)"
    by (rule imageE)
  show ?thesis
  proof (cases "d \<in> set invalidChars")
    case True
    then have "c = 45" using c by simp
    then show ?thesis using dash_valid by simp
  next
    case False
    then show ?thesis using c by simp
  qed
qed

lemma literal_clean:
  "c \<in> set (js ''photo-collection'') \<union> set (js ''.pdf'') \<Longrightarrow> c \<notin> set invalidChars"
  by (auto simp: js_def invalidChars_def)

lemma trim_empty_iff: "trim s = [] \<longleftrightarrow> (\<forall>c\<in>set s. isWhiteSpace c)"
proof (cases "dropWhile isWhiteSpace s")
  case Nil
  have "trim s = []" unfolding trim_def Nil by simp
  moreover from Nil have "\<forall>c\<in>set s. isWhiteSpace c" by (simp only: dropWhile_eq_Nil_conv)
  ultimately show ?thesis by blast
next
  case (Cons c cs)
  then have nw: "\<not> isWhiteSpace c" using hd_dropWhile[of isWhiteSpace s] by auto
  have "c \<in> set (rev (dropWhile isWhiteSpace s))" using Cons by simp
  then have "dropWhile isWhiteSpace (rev (dropWhile isWhiteSpace s)) \<noteq> []"
    using nw by (auto simp: dropWhile_eq_Nil_conv)
  then have "trim s \<noteq> []" unfolding trim_def by (simp only: rev_is_Nil_conv not_False_eq_True)
  moreover have "\<not> (\<forall>c\<in>set s. isWhiteSpace c)"
    using Cons dropWhile_eq_Nil_conv[of isWhiteSpace s] by auto
  ultimately show ?thesis by blast
qed


lemma dropWhile_self: "xs \<noteq> [] \<Longrightarrow> \<not> P (hd xs) \<Longrightarrow> dropWhile P xs = xs"
  by (cases xs) simp_all

lemma trim_core:
  assumes pre: "\<forall>c\<in>set pre. isWhiteSpace c" and post: "\<forall>c\<in>set post. isWhiteSpace c"
    and core: "core \<noteq> []" "\<not> isWhiteSpace (hd core)" "\<not> isWhiteSpace (last core)"
  shows "trim (pre @ core @ post) = core"
proof -
  have "dropWhile isWhiteSpace (pre @ core @ post) = dropWhile isWhiteSpace (core @ post)"
    using pre by (intro dropWhile_append2) simp
  also have "\<dots> = core @ post" using core by (intro dropWhile_self) simp_all
  finally have d: "dropWhile isWhiteSpace (pre @ core @ post) = core @ post" .
  have "dropWhile isWhiteSpace (rev post @ rev core) = dropWhile isWhiteSpace (rev core)"
    using post by (intro dropWhile_append2) simp
  also have "\<dots> = rev core" using core by (intro dropWhile_self) (simp_all add: hd_rev)
  finally show ?thesis by (simp add: trim_def d)
qed

lemma trim_splits:
  assumes "trim name \<noteq> []"
  shows "\<exists>pre core post. name = pre @ core @ post \<and> (\<forall>c\<in>set pre. isWhiteSpace c) \<and>
           (\<forall>c\<in>set post. isWhiteSpace c) \<and> core \<noteq> [] \<and> \<not> isWhiteSpace (hd core) \<and>
           \<not> isWhiteSpace (last core) \<and> trim name = core"
proof -
  define d where "d = dropWhile isWhiteSpace name"
  define pre where "pre = takeWhile isWhiteSpace name"
  define post where "post = rev (takeWhile isWhiteSpace (rev d))"
  define r where "r = dropWhile isWhiteSpace (rev d)"
  have t: "trim name = rev r" by (simp add: trim_def r_def d_def)
  have r0: "r \<noteq> []" using assms t by simp
  have n: "name = pre @ d" by (simp add: pre_def d_def)
  have "rev d = takeWhile isWhiteSpace (rev d) @ r" by (simp add: r_def)
  then have "rev (rev d) = rev (takeWhile isWhiteSpace (rev d) @ r)" by (simp only:)
  then have dd: "d = rev r @ post" by (simp add: post_def)
  have p1: "\<forall>c\<in>set pre. isWhiteSpace c" unfolding pre_def by (auto dest: set_takeWhileD)
  have p2: "\<forall>c\<in>set post. isWhiteSpace c" unfolding post_def by (auto dest: set_takeWhileD)
  have d0: "d \<noteq> []" using dd r0 by simp
  have "\<not> isWhiteSpace (hd d)" using d0 hd_dropWhile[of isWhiteSpace name] by (simp add: d_def)
  moreover have "hd d = hd (rev r)" using dd r0 by simp
  ultimately have h: "\<not> isWhiteSpace (hd (rev r))" by simp
  have "\<not> isWhiteSpace (hd r)" using r0 hd_dropWhile[of isWhiteSpace "rev d"] by (simp add: r_def)
  then have l: "\<not> isWhiteSpace (last (rev r))" using r0 by (simp add: last_rev)
  have "name = pre @ rev r @ post" using n dd by simp
  then show ?thesis using p1 p2 r0 h l t
    by (intro exI[of _ pre] exI[of _ "rev r"] exI[of _ post]) simp
qed

lemma invalidChars_set: "set invalidChars = {47, 92, 63, 37, 42, 58, 124, 34, 60, 62}"
  by (simp add: invalidChars_def)

lemma sanitizeFilename_map:
  "sanitizeFilename s = map (\<lambda>c. if c \<in> {47, 92, 63, 37, 42, 58, 124, 34, 60, 62} then 45 else c) s"
  by (simp only: sanitizeFilename_def invalidChars_set)

lemma js_literals:
  "js ''photo-collection.pdf'' = [112, 104, 111, 116, 111, 45, 99, 111, 108, 108, 101, 99, 116,
     105, 111, 110, 46, 112, 100, 102]"
  "js ''.pdf'' = [46, 112, 100, 102]"
  by (simp_all add: js_def)

section \<open>The placement loop\<close>

lemma div_pred:
  fixes n b :: int
  assumes "0 < b"
  shows "(n - 1) div b = (if n mod b = 0 then n div b - 1 else n div b)"
proof (cases "n mod b = 0")
  case True
  have "n = n div b * b + n mod b" by simp
  then have "n - 1 = (b - 1) + (n div b - 1) * b" using True by (simp add: algebra_simps)
  then have "(n - 1) div b = ((b - 1) + (n div b - 1) * b) div b" by (simp only:)
  also have "\<dots> = (n div b - 1) + (b - 1) div b" using assms by simp
  also have "(b - 1) div b = 0" using assms by simp
  finally show ?thesis using True by simp
next
  case False
  have r: "0 < n mod b" using False assms pos_mod_sign[of b n] by linarith
  have rb: "n mod b < b" using assms by simp
  have "n = n div b * b + n mod b" by simp
  then have "n - 1 = (n mod b - 1) + (n div b) * b" by (simp add: algebra_simps)
  then have "(n - 1) div b = ((n mod b - 1) + (n div b) * b) div b" by (simp only:)
  also have "\<dots> = n div b + (n mod b - 1) div b" using assms by simp
  also have "(n mod b - 1) div b = 0" using r rb by simp
  finally show ?thesis using False by simp
qed

lemma js_rem_nonneg: "0 \<le> a \<Longrightarrow> 0 < b \<Longrightarrow> js_rem a b = a mod b"
  by (cases "a = 0") (simp_all add: js_rem_def)

lemma placeImage_images:
  "images (placeImage st i pdf) = images pdf @ [last (images (placeImage st i pdf))]"
  by (simp add: placeImage_def Let_def)

lemma placeImage_length: "length (images (placeImage st i pdf)) = Suc (length (images pdf))"
  by (simp add: placeImage_def Let_def)

lemma placeImage_pages:
  "pages (placeImage st i pdf) =
     (if js_rem (int i) (imagesPerPage (layoutGrid (imageLayout st) (customCols st) (customRows st))) = 0 \<and> 0 < i
      then pages pdf + 1 else pages pdf)"
  by (simp add: placeImage_def Let_def)

lemma placeImage_savedAs: "savedAs (placeImage st i pdf) = savedAs pdf"
  by (simp add: placeImage_def Let_def)

lemma placeImage_nth_old:
  "k < length (images pdf) \<Longrightarrow> images (placeImage st i pdf) ! k = images pdf ! k"
  by (simp add: placeImage_def Let_def nth_append)

lemma placeImage_nth_new:
  "images (placeImage st i pdf) ! length (images pdf) =
     (let g = layoutGrid (imageLayout st) (customCols st) (customRows st);
          imageIndexOnPage = js_rem (int i) (imagesPerPage g);
          rowIx = Math_floor (fdiv (of_int imageIndexOnPage) (of_int (cols g)));
          colIx = js_rem imageIndexOnPage (cols g)
      in \<lparr>itemIndex = i, onPage = pages (placeImage st i pdf) - 1,
          pageIndex = Math_floor (fdiv (of_nat i) (of_int (imagesPerPage g))),
          rowIndex = rowIx, colIndex = colIx,
          posX = jadd (of_int (margin st)) (jmul (of_int colIx) (imageWidth st)),
          posY = jadd (of_int (margin st + titleSpace st)) (jmul (of_int rowIx) (imageHeight st)),
          drawWidth = jsub (imageWidth st) (fdiv (of_int (margin st)) 2),
          drawHeight = jsub (imageHeight st) (fdiv (of_int (margin st)) 2)\<rparr>)"
  by (simp add: placeImage_def Let_def nth_append)

lemma placed_invariant:
  fixes st :: Settings
  defines "g \<equiv> layoutGrid (imageLayout st) (customCols st) (customRows st)"
  assumes ipp: "0 < imagesPerPage g"
  shows "length (images (placeImages st n)) = n \<and> savedAs (placeImages st n) = None \<and>
         int (pages (placeImages st n)) = (if n = 0 then 1 else (int n - 1) div imagesPerPage g + 1) \<and>
         (\<forall>i<n. images (placeImages st n) ! i = images (placeImages st (Suc i)) ! i \<and>
                 int (onPage (images (placeImages st n) ! i)) = int i div imagesPerPage g)"
proof (induction n)
  case 0
  show ?case by (simp add: placeImages_def)
next
  case (Suc n)
  have step: "placeImages st (Suc n) = placeImage st n (placeImages st n)" by (simp add: placeImages_def)
  have len: "length (images (placeImages st n)) = n" using Suc.IH by simp
  have rem: "js_rem (int n) (imagesPerPage g) = int n mod imagesPerPage g"
    using ipp by (simp add: js_rem_nonneg)
  have pe: "pages (placeImages st (Suc n)) =
      (if int n mod imagesPerPage g = 0 \<and> 0 < n then pages (placeImages st n) + 1 else pages (placeImages st n))"
    using rem by (simp add: step placeImage_pages g_def[symmetric])
  have pg: "int (pages (placeImages st (Suc n))) = int n div imagesPerPage g + 1"
  proof (cases "n = 0")
    case True
    then have "pages (placeImages st n) = 1" using Suc.IH by simp
    then show ?thesis using True pe by simp
  next
    case False
    then have "int (pages (placeImages st n)) = (int n - 1) div imagesPerPage g + 1" using Suc.IH by simp
    then show ?thesis using False pe div_pred[OF ipp, of "int n"] by simp
  qed
  have new: "int (onPage (images (placeImages st (Suc n)) ! n)) = int n div imagesPerPage g"
  proof -
    have "onPage (images (placeImages st (Suc n)) ! n) = pages (placeImages st (Suc n)) - 1"
      using placeImage_nth_new[of st n "placeImages st n"] len by (simp add: step Let_def)
    moreover have "0 \<le> int n div imagesPerPage g" using ipp by (simp add: pos_imp_zdiv_nonneg_iff)
    ultimately show ?thesis using pg by simp
  qed
  have old: "\<And>i. i < n \<Longrightarrow> images (placeImages st (Suc n)) ! i = images (placeImages st n) ! i"
    using len by (simp add: step placeImage_nth_old)
  show ?case
  proof (intro conjI allI impI)
    show "length (images (placeImages st (Suc n))) = Suc n" using len by (simp add: step placeImage_length)
    show "savedAs (placeImages st (Suc n)) = None" using Suc.IH by (simp add: step placeImage_savedAs)
    show "int (pages (placeImages st (Suc n))) = (if Suc n = 0 then 1 else (int (Suc n) - 1) div imagesPerPage g + 1)"
      using pg by simp
  next
    fix i assume "i < Suc n"
    then consider "i < n" | "i = n" by linarith
    then show "images (placeImages st (Suc n)) ! i = images (placeImages st (Suc i)) ! i"
    proof cases
      case 1
      then have "images (placeImages st n) ! i = images (placeImages st (Suc i)) ! i" using Suc.IH by blast
      then show ?thesis using old[OF 1] by (simp only:)
    next
      case 2
      then show ?thesis by simp
    qed
  next
    fix i assume "i < Suc n"
    then consider "i < n" | "i = n" by linarith
    then show "int (onPage (images (placeImages st (Suc n)) ! i)) = int i div imagesPerPage g"
    proof cases
      case 1
      then have "int (onPage (images (placeImages st n) ! i)) = int i div imagesPerPage g" using Suc.IH by blast
      then show ?thesis using old[OF 1] by (simp only:)
    next
      case 2
      then show ?thesis using new by simp
    qed
  qed
qed

lemma layoutGrid_product:
  "imagesPerPage (layoutGrid l c r) = cols (layoutGrid l c r) * rows (layoutGrid l c r)"
  by (cases l) (simp_all add: layoutGrid_def)

lemma generatePDF_placed:
  assumes "g = layoutGrid (imageLayout st) (customCols st) (customRows st)"
    and "0 < imagesPerPage g" and "0 < n"
  shows "generatePDF st n =
           Inr ((placeImages st n)\<lparr>savedAs := Some (saveFilename (pdfFilename st))\<rparr>)"
  using assms by (simp add: generatePDF_def)

lemma placed_entry:
  fixes st :: Settings
  defines "g \<equiv> layoutGrid (imageLayout st) (customCols st) (customRows st)"
  assumes c: "0 < cols g" and r: "0 < rows g" and i: "i < n" and n: "int n < 2 ^ 53"
  shows "itemIndex (images (placeImages st n) ! i) = i"
    and "pageIndex (images (placeImages st n) ! i) = int i div imagesPerPage g"
    and "int (onPage (images (placeImages st n) ! i)) = int i div imagesPerPage g"
    and "rowIndex (images (placeImages st n) ! i) = (int i mod imagesPerPage g) div cols g"
    and "colIndex (images (placeImages st n) ! i) = (int i mod imagesPerPage g) mod cols g"
    and "posX (images (placeImages st n) ! i) =
           jadd (of_int (margin st)) (jmul (of_int (colIndex (images (placeImages st n) ! i))) (imageWidth st))"
    and "posY (images (placeImages st n) ! i) =
           jadd (of_int (margin st + titleSpace st))
                (jmul (of_int (rowIndex (images (placeImages st n) ! i))) (imageHeight st))"
proof -
  have ipp: "0 < imagesPerPage g"
    using c r layoutGrid_product[of "imageLayout st" "customCols st" "customRows st"]
    by (simp add: g_def)
  note inv = placed_invariant[of st, folded g_def, OF ipp]
  have e: "images (placeImages st n) ! i = images (placeImages st (Suc i)) ! i" using inv[of n] i by blast
  have len: "length (images (placeImages st i)) = i" using inv[of i] by blast
  have step: "placeImages st (Suc i) = placeImage st i (placeImages st i)" by (simp add: placeImages_def)
  define m where "m = int i mod imagesPerPage g"
  have m0: "0 \<le> m" using ipp by (simp add: m_def)
  have mi: "m \<le> int i" using ipp by (simp add: m_def zmod_le_nonneg_dividend)
  have i53: "int i < 2 ^ 53" using i n by linarith
  have rem1: "js_rem (int i) (imagesPerPage g) = m" using ipp by (simp add: js_rem_nonneg m_def)
  have rem2: "js_rem m (cols g) = m mod cols g" using m0 c by (simp add: js_rem_nonneg)
  have fl1: "Math_floor (fdiv (of_nat i) (of_int (imagesPerPage g))) = int i div imagesPerPage g"
    using floor_fdiv[of "int i" "imagesPerPage g"] i53 ipp by simp
  have fl2: "Math_floor (fdiv (of_int m) (of_int (cols g))) = m div cols g"
    using floor_fdiv[of m "cols g"] m0 mi i53 c by simp
  note new = placeImage_nth_new[of st i "placeImages st i", unfolded len, folded step g_def, unfolded Let_def rem1 rem2 fl1 fl2]
  show "itemIndex (images (placeImages st n) ! i) = i" by (simp add: e new)
  show "pageIndex (images (placeImages st n) ! i) = int i div imagesPerPage g" by (simp add: e new)
  show "int (onPage (images (placeImages st n) ! i)) = int i div imagesPerPage g" using inv[of n] i by blast
  show "rowIndex (images (placeImages st n) ! i) = (int i mod imagesPerPage g) div cols g" by (simp add: e new m_def)
  show "colIndex (images (placeImages st n) ! i) = (int i mod imagesPerPage g) mod cols g" by (simp add: e new m_def)
  show "posX (images (placeImages st n) ! i) =
           jadd (of_int (margin st)) (jmul (of_int (colIndex (images (placeImages st n) ! i))) (imageWidth st))"
    by (simp add: e new)
  show "posY (images (placeImages st n) ! i) =
           jadd (of_int (margin st + titleSpace st))
                (jmul (of_int (rowIndex (images (placeImages st n) ! i))) (imageHeight st))"
    by (simp add: e new)
qed

lemma placed_pages:
  assumes "g = layoutGrid (imageLayout st) (customCols st) (customRows st)"
    and ipp: "0 < imagesPerPage g" and n: "0 < n"
  shows "int (pages (placeImages st n)) = (int n - 1) div imagesPerPage g + 1"
    and "length (images (placeImages st n)) = n"
    and "i < n \<Longrightarrow> int (onPage (images (placeImages st n) ! i)) = int i div imagesPerPage g"
proof -
  note inv = placed_invariant[of st n, folded assms(1), OF ipp]
  from inv n show "int (pages (placeImages st n)) = (int n - 1) div imagesPerPage g + 1" by simp
  from inv show "length (images (placeImages st n)) = n" by blast
  from inv show "i < n \<Longrightarrow> int (onPage (images (placeImages st n) ! i)) = int i div imagesPerPage g"
    by blast
qed

lemma ceiling_pages:
  fixes n b :: int
  assumes "0 < b" "0 < n"
  shows "\<lceil>(of_int n :: rat) / of_int b\<rceil> = (n - 1) div b + 1"
proof (rule ceiling_unique)
  define q where "q = (n - 1) div b"
  have b': "(0::rat) < of_int b" using assms by simp
  have "n - 1 = q * b + (n - 1) mod b" by (simp add: q_def)
  moreover have "0 \<le> (n - 1) mod b" "(n - 1) mod b < b" using assms by simp_all
  ultimately have lo: "q * b < n" and hi: "n \<le> (q + 1) * b" by (simp_all add: algebra_simps)
  have "(of_int (q * b) :: rat) < of_int n" using lo by (simp only: of_int_less_iff)
  then have "of_int q * of_int b < (of_int n :: rat)" by simp
  then have "of_int q < (of_int n :: rat) / of_int b" using b' by (simp add: pos_less_divide_eq)
  then show "of_int ((n - 1) div b + 1) - 1 < (of_int n :: rat) / of_int b" by (simp add: q_def)
  have "(of_int n :: rat) \<le> of_int ((q + 1) * b)" using hi by (simp only: of_int_le_iff)
  then have "(of_int n :: rat) \<le> (of_int q + 1) * of_int b" by simp
  then have "(of_int n :: rat) / of_int b \<le> of_int q + 1" using b' by (simp add: pos_divide_le_eq)
  then show "(of_int n :: rat) / of_int b \<le> of_int ((n - 1) div b + 1)" by (simp add: q_def)
qed

lemma page_not_empty:
  fixes n :: nat and b :: int
  assumes "0 < b" "0 < n" "int p \<le> (int n - 1) div b"
  shows "p * nat b < n" and "int (p * nat b) div b = int p"
proof -
  have "(int n - 1) div b * b \<le> int n - 1"
    using assms div_mult_mod_eq[of "int n - 1" b] pos_mod_sign[of b "int n - 1"] by linarith
  moreover have "int p * b \<le> (int n - 1) div b * b" using assms by (intro mult_right_mono) simp_all
  ultimately have "int p * b < int n" by linarith
  moreover have e: "int (p * nat b) = int p * b" using assms by simp
  ultimately show "p * nat b < n" by linarith
  show "int (p * nat b) div b = int p" using assms by (simp add: e)
qed

lemma ceil_fdiv:
  assumes "0 < a" "a < 2 ^ 53" "0 < b"
  shows "Math_ceil (fdiv (of_int a) (of_int b)) = \<lceil>(of_int a :: rat) / of_int b\<rceil>"
proof -
  define x :: rat where "x = of_int a / of_int b"
  define k where "k = \<lceil>x\<rceil>"
  have b': "(0::rat) < of_int b" and b1: "(1::rat) \<le> of_int b" using assms by simp_all
  have x0: "0 < x" using assms by (simp add: x_def)
  have klo: "of_int k - 1 < x" and khi: "x \<le> of_int k" unfolding k_def by linarith+
  have k0: "0 < k" using x0 by (simp add: k_def)
  have "x \<le> of_int a" using assms b1 by (simp add: x_def divide_le_eq mult_le_cancel_left1)
  then have "k \<le> a" unfolding k_def by (simp add: ceiling_le_iff)
  then have "fl (of_int k) = of_int k" using k0 assms by (intro fl_int) simp_all
  moreover have "fl x \<le> fl (of_int k)" using x0 khi by (intro fl_mono) simp_all
  ultimately have hi: "fl x \<le> of_int k" by simp
  have "(of_int k - 1) * of_int b < (of_int a :: rat)" using klo b' by (simp add: x_def pos_less_divide_eq)
  then have "(of_int ((k - 1) * b) :: rat) < of_int a" by simp
  then have "(k - 1) * b < a" by (simp only: of_int_less_iff)
  then have "(k - 1) * b + 1 \<le> a" by simp
  then have "(of_int ((k - 1) * b + 1) :: rat) \<le> of_int a" by (simp only: of_int_le_iff)
  then have ab: "(of_int k - 1) * of_int b + 1 \<le> (of_int a :: rat)" by simp
  define e :: rat where "e = of_int a / 2 ^ 53"
  have "(of_int a :: rat) < 2 ^ 53" using assms by simp
  then have "e < 1" by (simp add: e_def)
  then have "(of_int k - 1) * of_int b < (of_int a :: rat) - e" using ab by (simp add: algebra_simps)
  then have "(of_int k - 1) * of_int b < (of_int a :: rat) - of_int a / 2 ^ 53" by (simp only: e_def)
  then have "of_int k - 1 < ((of_int a :: rat) - of_int a / 2 ^ 53) / of_int b"
    using b' by (simp add: pos_less_divide_eq)
  moreover have "((of_int a :: rat) - of_int a / 2 ^ 53) / of_int b = x - x / 2 ^ 53"
    by (simp add: x_def diff_divide_distrib)
  ultimately have "of_int k - 1 < x - x / 2 ^ 53" by simp
  then have lo: "of_int k - 1 < fl x" using fl_err_lower[of x] x0 by linarith
  have "\<lceil>fl x\<rceil> = k" using lo hi by (intro ceiling_unique)
  then show ?thesis by (simp add: Math_ceil_def fdiv_def x_def k_def)
qed

lemma totalPages_eq:
  assumes "g = layoutGrid (imageLayout st) (customCols st) (customRows st)"
    and "0 < imagesPerPage g" and "0 < n" and "int n < 2 ^ 53"
  shows "totalPages st n = \<lceil>(of_nat n :: rat) / of_int (imagesPerPage g)\<rceil>"
  using ceil_fdiv[of "int n" "imagesPerPage g"] assms by (simp add: totalPages_def)

lemma list5:
  assumes "length xs = 5"
  shows "map f xs = [f (xs ! 0), f (xs ! 1), f (xs ! 2), f (xs ! 3), f (xs ! 4)]"
proof -
  from assms obtain a b c d e where "xs = [a, b, c, d, e]"
    by (auto simp: length_Suc_conv numeral_eq_Suc)
  then show ?thesis by simp
qed

section \<open>Two roundings in a row\<close>

lemma fl2_upper:
  fixes a b k :: rat
  assumes "0 < a" "0 < b" "0 < k"
  shows "fl (fl (a / b) * k) \<le> (a * k / b) * ((1 + 1 / 2 ^ 53) * (1 + 1 / 2 ^ 53))"
proof -
  define E :: rat where "E = 1 + 1 / 2 ^ 53"
  define y where "y = a * k / b"
  have q: "0 \<le> a / b" using assms by simp
  have "fl (a / b) \<le> a / b + (a / b) / 2 ^ 53" by (rule fl_err_upper[OF q])
  also have "\<dots> = (a / b) * E" by (simp add: E_def algebra_simps)
  finally have "fl (a / b) \<le> (a / b) * E" .
  then have "fl (a / b) * k \<le> (a / b) * E * k" using assms by (intro mult_right_mono) simp_all
  also have "\<dots> = y * E" by (simp add: y_def)
  finally have p: "fl (a / b) * k \<le> y * E" .
  have p0: "0 \<le> fl (a / b) * k" using fl_nonneg[OF q] assms by simp
  have "fl (fl (a / b) * k) \<le> fl (a / b) * k + (fl (a / b) * k) / 2 ^ 53" by (rule fl_err_upper[OF p0])
  also have "\<dots> = (fl (a / b) * k) * E" by (simp add: E_def algebra_simps)
  also have "\<dots> \<le> (y * E) * E" using p by (intro mult_right_mono) (simp_all add: E_def)
  finally show ?thesis by (simp add: y_def E_def mult.assoc)
qed

lemma fl2_lower:
  fixes a b k :: rat
  assumes "0 < a" "0 < b" "0 < k"
  shows "(a * k / b) * ((1 - 1 / 2 ^ 53) * (1 - 1 / 2 ^ 53)) \<le> fl (fl (a / b) * k)"
proof -
  define E :: rat where "E = 1 - 1 / 2 ^ 53"
  define y where "y = a * k / b"
  have E0: "0 \<le> E" by (simp add: E_def)
  have q: "0 \<le> a / b" using assms by simp
  have "(a / b) * E = a / b - (a / b) / 2 ^ 53" by (simp add: E_def algebra_simps)
  also have "\<dots> \<le> fl (a / b)" by (rule fl_err_lower[OF q])
  finally have "(a / b) * E \<le> fl (a / b)" .
  then have "(a / b) * E * k \<le> fl (a / b) * k" using assms by (intro mult_right_mono) simp_all
  moreover have "(a / b) * E * k = y * E" by (simp add: y_def)
  ultimately have p: "y * E \<le> fl (a / b) * k" by simp
  have p0: "0 \<le> fl (a / b) * k" using fl_nonneg[OF q] assms by simp
  have "(y * E) * E \<le> (fl (a / b) * k) * E" using p E0 by (intro mult_right_mono)
  also have "\<dots> = fl (a / b) * k - (fl (a / b) * k) / 2 ^ 53" by (simp add: E_def algebra_simps)
  also have "\<dots> \<le> fl (fl (a / b) * k)" by (rule fl_err_lower[OF p0])
  finally show ?thesis by (simp add: y_def E_def mult.assoc)
qed

lemma fl2_err:
  fixes a b k :: rat
  assumes "0 < a" "0 < b" "0 < k"
  shows "\<bar>fl (fl (a / b) * k) - a * k / b\<bar> \<le> (a * k / b) / 2 ^ 51"
proof -
  define y where "y = a * k / b"
  define c where "c = fl (fl (a / b) * k)"
  have y0: "0 \<le> y" using assms by (simp add: y_def)
  have u: "c \<le> y * ((1 + 1 / 2 ^ 53) * (1 + 1 / 2 ^ 53))"
    unfolding c_def y_def by (rule fl2_upper[OF assms])
  have l: "y * ((1 - 1 / 2 ^ 53) * (1 - 1 / 2 ^ 53)) \<le> c"
    unfolding c_def y_def by (rule fl2_lower[OF assms])
  have "y * ((1 + 1 / 2 ^ 53) * (1 + 1 / 2 ^ 53)) \<le> y * (1 + 1 / 2 ^ 51)"
    using y0 by (intro mult_left_mono) simp_all
  then have u': "c - y \<le> y / 2 ^ 51" using u by (simp add: algebra_simps)
  have "y * (1 - 1 / 2 ^ 51) \<le> y * ((1 - 1 / 2 ^ 53) * (1 - 1 / 2 ^ 53))"
    using y0 by (intro mult_left_mono) simp_all
  then have l': "y - c \<le> y / 2 ^ 51" using l by (simp add: algebra_simps)
  show ?thesis using u' l' unfolding c_def y_def by (simp add: abs_le_iff)
qed

lemma round_near:
  fixes c :: rat
  assumes "of_int W - 1/2 \<le> c" "c < of_int W + 1/2"
  shows "Math_round c = W"
  unfolding Math_round_def using assms by (intro floor_unique) simp_all


lemma round_ratio_times:
  fixes h w W :: int
  assumes h: "0 < h" and w: "0 < w" and W: "0 < W" and b: "h * W < 2 ^ 50"
  defines "y \<equiv> (of_int (h * W) :: rat) / of_int w"
  defines "c \<equiv> jmul (fdiv (of_int h) (of_int w)) (of_int W)"
  shows "Math_round c = Math_round y \<or>
         (y = of_int (Math_round y) - 1/2 \<and> Math_round c = Math_round y - 1)"
proof -
  define A :: rat where "A = of_int h"
  define B :: rat where "B = of_int w"
  define K :: rat where "K = of_int W"
  define n where "n = Math_round y"
  define N :: rat where "N = of_int n"
  define t :: rat where "t = 1 / (2 * B)"
  have A0: "0 < A" and B0: "0 < B" and K0: "0 < K" using h w W by (simp_all add: A_def B_def K_def)
  have B1: "1 \<le> B" using w by (simp add: B_def)
  have yAK: "y = A * K / B" by (simp add: y_def A_def B_def K_def)
  have cdef: "c = fl (fl (A / B) * K)" by (simp add: c_def jmul_def fdiv_def A_def B_def K_def)
  have y0: "0 < y" using A0 B0 K0 by (simp add: yAK)
  have "(of_int (h * W) :: rat) < 2 ^ 50" using b by (simp only: of_int_less_numeral_power_cancel_iff)
  then have AK: "A * K < 2 ^ 50" by (simp add: A_def K_def)
  have "\<bar>c - A * K / B\<bar> \<le> (A * K / B) / 2 ^ 51"
    unfolding cdef by (rule fl2_err[OF A0 B0 K0])
  then have e: "\<bar>c - y\<bar> \<le> y / 2 ^ 51" by (simp only: yAK)
  have "(A * K) / 2 ^ 51 < 1 / 2" using AK by simp
  then have "(A * K) / 2 ^ 51 / B < 1 / 2 / B" using B0 by (simp only: divide_strict_right_mono)
  then have "y / 2 ^ 51 < t" by (simp add: yAK t_def)
  then have ct: "\<bar>c - y\<bar> < t" using e by linarith
  have t12: "t \<le> 1 / 2" using B1 B0 by (simp add: t_def field_simps)
  have nlo: "N - 1/2 \<le> y" and nhi: "y < N + 1/2"
    unfolding N_def n_def Math_round_def by linarith+
  \<comment> \<open>the quotient is at least \<open>t\<close> away from the next half-integer above\<close>
  have "y * B < (N + 1/2) * B" using nhi B0 by (simp only: mult_strict_right_mono)
  then have "2 * (A * K) < (2 * N + 1) * B" using B0 by (simp add: yAK algebra_simps)
  then have "(of_int (2 * (h * W)) :: rat) < of_int ((2 * n + 1) * w)"
    by (simp add: A_def B_def K_def N_def)
  then have "2 * (h * W) < (2 * n + 1) * w" by (simp only: of_int_less_iff)
  then have "2 * (h * W) + 1 \<le> (2 * n + 1) * w" by simp
  then have "(of_int (2 * (h * W) + 1) :: rat) \<le> of_int ((2 * n + 1) * w)" by (simp only: of_int_le_iff)
  then have "2 * (A * K) + 1 \<le> (2 * N + 1) * B" by (simp add: A_def B_def K_def N_def)
  then have "(2 * (A * K) + 1) / (2 * B) \<le> (2 * N + 1) * B / (2 * B)"
    using B0 by (intro divide_right_mono) simp_all
  moreover have "(2 * (A * K) + 1) / (2 * B) = y + t" using B0 by (simp add: yAK t_def field_simps)
  moreover have "(2 * N + 1) * B / (2 * B) = N + 1/2" using B0 by (simp add: field_simps)
  ultimately have up: "y + t \<le> N + 1/2" by simp
  have chi: "c < N + 1/2" using ct up by linarith
  show ?thesis
  proof (cases "y = N - 1/2")
    case True
    have "N - 1 \<le> y - t" using True t12 by linarith
    then have "N - 1 < c" using ct by linarith
    then have "N - 1 \<le> c + 1/2" by linarith
    then have "of_int (n - 1) \<le> c + 1/2" by (simp add: N_def)
    then have lo: "n - 1 \<le> Math_round c" unfolding Math_round_def by (simp only: le_floor_iff)
    have "c + 1/2 < N + 1" using chi by linarith
    then have "c + 1/2 < of_int (n + 1)" by (simp add: N_def)
    then have "Math_round c < n + 1" unfolding Math_round_def by (simp only: floor_less_iff)
    then have r: "Math_round c = n \<or> Math_round c = n - 1" using lo by linarith
    have "y = of_int n - 1/2" using True by (simp only: N_def)
    then show ?thesis using r unfolding n_def by blast
  next
    case False
    then have "N - 1/2 < y" using nlo by simp
    then have "(N - 1/2) * B < y * B" using B0 by (simp only: mult_strict_right_mono)
    then have "(2 * N - 1) * B < 2 * (A * K)" using B0 by (simp add: yAK algebra_simps)
    then have "(of_int ((2 * n - 1) * w) :: rat) < of_int (2 * (h * W))"
      by (simp add: A_def B_def K_def N_def)
    then have "(2 * n - 1) * w < 2 * (h * W)" by (simp only: of_int_less_iff)
    then have "(2 * n - 1) * w \<le> 2 * (h * W) - 1" by simp
    then have "(of_int ((2 * n - 1) * w) :: rat) \<le> of_int (2 * (h * W) - 1)" by (simp only: of_int_le_iff)
    then have "(2 * N - 1) * B \<le> 2 * (A * K) - 1" by (simp add: A_def B_def K_def N_def)
    then have "(2 * N - 1) * B / (2 * B) \<le> (2 * (A * K) - 1) / (2 * B)"
      using B0 by (intro divide_right_mono) simp_all
    moreover have "(2 * (A * K) - 1) / (2 * B) = y - t" using B0 by (simp add: yAK t_def field_simps)
    moreover have "(2 * N - 1) * B / (2 * B) = N - 1/2" using B0 by (simp add: field_simps)
    ultimately have "N - 1/2 \<le> y - t" by simp
    then have "N - 1/2 \<le> c" using ct by linarith
    then have "Math_round c = n" using chi unfolding N_def by (intro round_near) simp_all
    then show ?thesis by (simp add: n_def)
  qed
qed

section \<open>The target size\<close>

lemma Math_round_mono: "x \<le> y \<Longrightarrow> Math_round x \<le> Math_round y"
  unfolding Math_round_def by (intro floor_mono) simp

lemma Math_round_nonneg: "0 \<le> x \<Longrightarrow> 0 \<le> Math_round x"
  unfolding Math_round_def by simp

lemma jdiv_Some: "b \<noteq> 0 \<Longrightarrow> jdiv a b = Some (fdiv a b)"
  by (simp add: jdiv_def)

lemma fdiv_nonneg: "0 \<le> a \<Longrightarrow> 0 \<le> b \<Longrightarrow> 0 \<le> fdiv a b"
  unfolding fdiv_def by (intro fl_nonneg) simp

lemma jmul_nonneg: "0 \<le> a \<Longrightarrow> 0 \<le> b \<Longrightarrow> 0 \<le> jmul a b"
  unfolding jmul_def by (intro fl_nonneg) simp


lemma scaleByMinRatio_eq:
  assumes "iw \<noteq> 0" "ih \<noteq> 0"
  shows "scaleByMinRatio iw ih W H =
     Some \<lparr>width = Math_round (jmul (of_int iw)
                (min (fdiv (of_int W) (of_int iw)) (fdiv (of_int H) (of_int ih)))),
           height = Math_round (jmul (of_int ih)
                (min (fdiv (of_int W) (of_int iw)) (fdiv (of_int H) (of_int ih))))\<rparr>"
  using assms by (simp add: scaleByMinRatio_def jdiv_Some Let_def)

lemma scaleByMinRatio_nonneg:
  assumes "0 < iw" "0 < ih" "0 \<le> W" "0 \<le> H"
  shows "\<exists>d. scaleByMinRatio iw ih W H = Some d \<and> 0 \<le> width d \<and> 0 \<le> height d"
proof -
  have r: "0 \<le> min (fdiv (of_int W) (of_int iw)) (fdiv (of_int H) (of_int ih))"
    using assms by (simp add: fdiv_nonneg)
  have "0 \<le> Math_round (jmul (of_int iw) (min (fdiv (of_int W) (of_int iw)) (fdiv (of_int H) (of_int ih))))"
    using assms r by (intro Math_round_nonneg jmul_nonneg) simp_all
  moreover have "0 \<le> Math_round (jmul (of_int ih) (min (fdiv (of_int W) (of_int iw)) (fdiv (of_int H) (of_int ih))))"
    using assms r by (intro Math_round_nonneg jmul_nonneg) simp_all
  ultimately show ?thesis using assms by (simp add: scaleByMinRatio_eq)
qed


lemma percentage_axis:
  assumes "0 \<le> a" "a < 2 ^ 52"
  shows "Math_round (fdiv (of_int a) 100) = \<lfloor>(of_int a / 100 + 1/2 :: rat)\<rfloor>"
  using round_fdiv[of a 100] assms by (simp add: Math_round_def)

lemma percentage_axis_pos:
  assumes "0 \<le> a" "a < 2 ^ 52"
  shows "0 < Math_round (fdiv (of_int a) 100) \<longleftrightarrow> 50 \<le> a"
proof -
  have "0 < \<lfloor>(of_int a / 100 + 1/2 :: rat)\<rfloor> \<longleftrightarrow> (1::rat) \<le> of_int a / 100 + 1/2"
    using zero_less_floor[of "of_int a / 100 + 1/2 :: rat"] by simp
  also have "\<dots> \<longleftrightarrow> (50::rat) \<le> of_int a" by (simp add: field_simps)
  also have "\<dots> \<longleftrightarrow> 50 \<le> a" by simp
  finally show ?thesis using percentage_axis[OF assms] by simp
qed

lemma round_hundredth: "\<lfloor>(of_int a / 100 + 1/2 :: rat)\<rfloor> = (a + 50) div 100"
proof -
  have "(of_int a / 100 + 1/2 :: rat) = of_int (a + 50) / of_int 100" by simp
  then show ?thesis by (simp only: floor_divide_of_int_eq)
qed

lemma PRESET_SIZES_pos: "0 < width (PRESET_SIZES ps) \<and> 0 < height (PRESET_SIZES ps)"
  by (cases ps) (simp_all add: PRESET_SIZES_def)

lemma round_product_nonneg:
  "0 < a \<Longrightarrow> 0 < b \<Longrightarrow> 0 \<le> c \<Longrightarrow> 0 \<le> Math_round (jmul (fdiv (of_int a) (of_int b)) (of_int c))"
  by (intro Math_round_nonneg jmul_nonneg fdiv_nonneg) simp_all

lemma targetDimensions_nonneg:
  assumes iw: "0 < iw" and ih: "0 < ih" and rw: "0 \<le> width rd" and rh: "0 \<le> height rd" and p: "0 \<le> pct"
  shows "\<exists>d. targetDimensions mode rd pct ps lock iw ih = Some d \<and> 0 \<le> width d \<and> 0 \<le> height d"
proof (cases mode)
  case ModeNone
  then show ?thesis using iw ih by (simp add: targetDimensions_def)
next
  case ModeDimensions
  define tw where "tw = (if width rd \<noteq> 0 then width rd else iw)"
  define th where "th = (if height rd \<noteq> 0 then height rd else ih)"
  have tw0: "0 < tw" and th0: "0 < th" using iw ih rw rh by (simp_all add: tw_def th_def)
  show ?thesis
  proof (cases lock)
    case False
    then show ?thesis using ModeDimensions tw0 th0
      by (simp add: targetDimensions_def tw_def th_def Let_def)
  next
    case True
    consider (w) "width rd \<noteq> 0" "height rd = 0" | (h) "width rd = 0" "height rd \<noteq> 0"
      | (n) "width rd = 0" "height rd = 0" | (b) "width rd \<noteq> 0" "height rd \<noteq> 0"
      by blast
    then show ?thesis
    proof cases
      case w
      have "0 \<le> Math_round (jmul (fdiv (of_int ih) (of_int iw)) (of_int (width rd)))"
        using iw ih rw by (intro round_product_nonneg)
      then show ?thesis using ModeDimensions True w iw rw
        by (simp add: targetDimensions_def jdiv_Some Let_def)
    next
      case h
      have "0 \<le> Math_round (jmul (fdiv (of_int iw) (of_int ih)) (of_int (height rd)))"
        using iw ih rh by (intro round_product_nonneg)
      then show ?thesis using ModeDimensions True h ih rh
        by (simp add: targetDimensions_def jdiv_Some Let_def)
    next
      case n
      have "targetDimensions mode rd pct ps lock iw ih = scaleByMinRatio iw ih tw th"
        using ModeDimensions True n by (simp add: targetDimensions_def tw_def th_def Let_def)
      then show ?thesis using scaleByMinRatio_nonneg[OF iw ih, of tw th] tw0 th0 by simp
    next
      case b
      have "targetDimensions mode rd pct ps lock iw ih = scaleByMinRatio iw ih tw th"
        using ModeDimensions True b by (simp add: targetDimensions_def tw_def th_def Let_def)
      then show ?thesis using scaleByMinRatio_nonneg[OF iw ih, of tw th] tw0 th0 by simp
    qed
  qed
next
  case ModePercentage
  have "0 \<le> Math_round (fdiv (of_int (iw * pct)) 100)" "0 \<le> Math_round (fdiv (of_int (ih * pct)) 100)"
    using iw ih p by (intro Math_round_nonneg fdiv_nonneg; simp)+
  then show ?thesis using ModePercentage by (simp add: targetDimensions_def)
next
  case ModePreset
  show ?thesis
  proof (cases lock)
    case False
    then show ?thesis using ModePreset PRESET_SIZES_pos[of ps]
      by (simp add: targetDimensions_def Let_def)
  next
    case True
    have "targetDimensions mode rd pct ps lock iw ih
        = scaleByMinRatio iw ih (width (PRESET_SIZES ps)) (height (PRESET_SIZES ps))"
      using ModePreset True by (simp add: targetDimensions_def Let_def)
    then show ?thesis
      using scaleByMinRatio_nonneg[OF iw ih, of "width (PRESET_SIZES ps)" "height (PRESET_SIZES ps)"]
        PRESET_SIZES_pos[of ps] by simp
  qed
qed

lemma targetDimensions_pos:
  assumes iw: "0 < iw" and ih: "0 < ih" and rw: "0 \<le> width rd" and rh: "0 \<le> height rd"
    and m: "mode = ModeNone \<or> (mode \<noteq> ModePercentage \<and> \<not> lock)"
    and d: "targetDimensions mode rd pct ps lock iw ih = Some d"
  shows "0 < width d \<and> 0 < height d"
proof (cases mode)
  case ModeNone
  then show ?thesis using d iw ih by (auto simp: targetDimensions_def)
next
  case ModeDimensions
  then have "\<not> lock" using m by simp
  then show ?thesis using ModeDimensions d iw ih rw rh
    by (auto simp: targetDimensions_def Let_def split: if_splits)
next
  case ModePercentage
  then show ?thesis using m by simp
next
  case ModePreset
  then have "\<not> lock" using m by simp
  then show ?thesis using ModePreset d PRESET_SIZES_pos[of ps]
    by (auto simp: targetDimensions_def Let_def)
qed

section \<open>Progress\<close>

lemma Math_floor_mono: "x \<le> y \<Longrightarrow> Math_floor x \<le> Math_floor y"
  unfolding Math_floor_def by (rule floor_mono)

lemma fl_small_ints: "fl 1 = 1" "fl 40 = 40" "fl 60 = 60" "fl 100 = 100"
  using fl_int[of 1] fl_int[of 40] fl_int[of 60] fl_int[of 100] by simp_all

lemma ratio_step_nonneg: "0 \<le> jmul (fdiv (of_nat c) (of_nat t)) k" if "0 \<le> k"
  using that by (intro jmul_nonneg fdiv_nonneg) simp_all

lemma ratio_step_mono:
  assumes "c \<le> c'" "0 \<le> k"
  shows "jmul (fdiv (of_nat c) (of_nat t)) k \<le> jmul (fdiv (of_nat c') (of_nat t)) k"
proof -
  have q: "(of_nat c :: rat) / of_nat t \<le> of_nat c' / of_nat t"
    using assms by (intro divide_right_mono) simp_all
  have "fdiv (of_nat c) (of_nat t) \<le> fdiv (of_nat c') (of_nat t)"
    unfolding fdiv_def using q by (intro fl_mono) simp_all
  moreover have "0 \<le> fdiv (of_nat c) (of_nat t)" by (intro fdiv_nonneg) simp_all
  ultimately show ?thesis unfolding jmul_def using assms
    by (intro fl_mono mult_right_mono mult_nonneg_nonneg) simp_all
qed

lemma formatProgress_mono: "c \<le> c' \<Longrightarrow> formatProgress c t \<le> formatProgress c' t"
  unfolding formatProgress_def jadd_def
  by (intro Math_floor_mono fl_mono add_left_mono ratio_step_mono add_nonneg_nonneg ratio_step_nonneg)
     simp_all

lemma formatProgress_ge: "60 \<le> formatProgress c t"
proof -
  have "fl 60 \<le> jadd 60 (jmul (fdiv (of_nat c) (of_nat t)) 40)"
    unfolding jadd_def using ratio_step_nonneg[of 40 c t] by (intro fl_mono) simp_all
  then have "of_int 60 \<le> jadd 60 (jmul (fdiv (of_nat c) (of_nat t)) 40)"
    by (simp add: fl_small_ints)
  then show ?thesis unfolding formatProgress_def Math_floor_def by (simp only: le_floor_iff)
qed

lemma formatProgress_le:
  assumes "c \<le> t"
  shows "formatProgress c t \<le> 100"
proof -
  have "(of_nat c :: rat) / of_nat t \<le> 1" using assms by (cases "t = 0") (simp_all add: divide_le_eq_1)
  then have "fdiv (of_nat c) (of_nat t) \<le> 1"
    unfolding fdiv_def using fl_mono[of "of_nat c / of_nat t" 1] by (simp add: fl_small_ints)
  moreover have "0 \<le> fdiv (of_nat c) (of_nat t)" by (intro fdiv_nonneg) simp_all
  ultimately have "fdiv (of_nat c) (of_nat t) * 40 \<le> 40" "0 \<le> fdiv (of_nat c) (of_nat t) * 40" by simp_all
  then have m: "jmul (fdiv (of_nat c) (of_nat t)) 40 \<le> 40" "0 \<le> jmul (fdiv (of_nat c) (of_nat t)) 40"
    unfolding jmul_def using fl_mono[of "fdiv (of_nat c) (of_nat t) * 40" 40] fl_nonneg
    by (simp_all add: fl_small_ints)
  then have "jadd 60 (jmul (fdiv (of_nat c) (of_nat t)) 40) \<le> 100"
    unfolding jadd_def using fl_mono[of "60 + jmul (fdiv (of_nat c) (of_nat t)) 40" 100]
    by (simp add: fl_small_ints)
  then have "Math_floor (jadd 60 (jmul (fdiv (of_nat c) (of_nat t)) 40)) \<le> Math_floor 100"
    by (rule Math_floor_mono)
  then show ?thesis by (simp add: formatProgress_def Math_floor_def)
qed

lemma processFormat_sorted:
  "c \<le> f \<Longrightarrow> f \<le> t \<Longrightarrow>
   sorted (processFormat t c f) \<and> (\<forall>v\<in>set (processFormat t c f). formatProgress c t \<le> v)"
proof (induction t c f rule: processFormat.induct)
  case (1 t c f)
  show ?case
  proof (cases "t \<le> f")
    case True
    then have e: "processFormat t c f = [100]" by (subst processFormat.simps) simp
    have "c \<le> t" using 1 by simp
    then show ?thesis using formatProgress_le[of c t] by (simp add: e)
  next
    case False
    then have e: "processFormat t c f =
        formatProgress (c + 1) t # processFormat t (c + 1) (f + 1)"
      by (subst processFormat.simps) simp
    have ih: "sorted (processFormat t (c + 1) (f + 1)) \<and>
        (\<forall>v\<in>set (processFormat t (c + 1) (f + 1)). formatProgress (c + 1) t \<le> v)"
      using 1 False by simp
    have s: "formatProgress c t \<le> formatProgress (c + 1) t" by (rule formatProgress_mono) simp
    show ?thesis using ih s unfolding e by (auto simp: order_trans[OF s])
  qed
qed

lemma addFiles_sorted:
  "sorted (addFiles t p l) \<and>
   (\<forall>v\<in>set (addFiles t p l). Math_round (jmul (fdiv (of_nat p) (of_nat t)) 100) \<le> v)"
proof (induction l arbitrary: p)
  case Nil
  show ?case by simp
next
  case (Cons fetched rest)
  have s: "Math_round (jmul (fdiv (of_nat p) (of_nat t)) 100)
        \<le> Math_round (jmul (fdiv (of_nat (p + 1)) (of_nat t)) 100)"
    by (intro Math_round_mono ratio_step_mono) simp_all
  show ?case
  proof (cases fetched)
    case True
    then show ?thesis using Cons.IH[of "p + 1"] s by (auto simp: order_trans[OF s])
  next
    case False
    then show ?thesis using Cons.IH[of p] by simp
  qed
qed

lemma addFiles_nonneg: "v \<in> set (addFiles t p l) \<Longrightarrow> 0 \<le> v"
proof -
  assume "v \<in> set (addFiles t p l)"
  then have "Math_round (jmul (fdiv (of_nat p) (of_nat t)) 100) \<le> v" using addFiles_sorted by blast
  moreover have "0 \<le> Math_round (jmul (fdiv (of_nat p) (of_nat t)) 100)"
    by (intro Math_round_nonneg ratio_step_nonneg) simp
  ultimately show ?thesis by linarith
qed

lemma sorted_map_round: "sorted ps \<Longrightarrow> sorted (map Math_round ps)"
  by (induction ps) (auto simp: Math_round_mono)

lemma processImageProgress_sorted: "sorted (processImageProgress s totalFormats)"
proof -
  have p: "sorted (processFormat totalFormats 0 0)"
    and ge: "\<forall>v\<in>set (processFormat totalFormats 0 0). 60 \<le> v"
    using processFormat_sorted[of 0 0 totalFormats] formatProgress_ge[of 0 totalFormats]
    by (auto intro: order_trans)
  define L where "L = [5] @ heicProgress s @ [40, 50, 60]"
  have h: "sorted L" "\<forall>v\<in>set L. v \<le> 60"
    unfolding L_def by (cases s; simp add: heicProgress_def)+
  have "\<forall>u\<in>set L. \<forall>v\<in>set (processFormat totalFormats 0 0). u \<le> v"
    using h(2) ge by (meson order_trans)
  then have "sorted (L @ processFormat totalFormats 0 0)"
    using p h(1) by (simp only: sorted_append)
  then have "sorted (([5] @ heicProgress s @ [40, 50, 60]) @ processFormat totalFormats 0 0)"
    by (simp only: L_def)
  then show ?thesis by (simp add: processImageProgress_def)
qed

lemma addFiles_phase_sorted: "sorted ([0] @ addFiles t 0 l)"
  using addFiles_sorted[of t 0 l] addFiles_nonneg[of _ t 0 l] by (simp add: sorted_append)

section \<open>Claims\<close>

text \<open>
  C10. The name under which the document is saved holds none of the characters
  \<open>/ \ ? % * : | " < >\<close> (code units 47, 92, 63, 37, 42, 58, 124, 34, 60, 62). When the name
  typed by the user is empty or consists of white space only, the document is saved as
  \<open>photo-collection.pdf\<close>. Otherwise the name is white space, then a part that neither
  begins nor ends with white space, then white space, and the document is saved under that
  middle part, in which every occurrence of each of those characters is replaced by \<open>-\<close>
  (45) and every other character is kept in its place, followed by \<open>.pdf\<close>
  (46, 112, 100, 102). \<open>sanitizeFilename\<close> is that replacement on any string.
\<close>

theorem saveFilename_sanitized:
  "(\<forall>c\<in>set (saveFilename name). c \<notin> {47, 92, 63, 37, 42, 58, 124, 34, 60, 62}) \<and>
   ((\<forall>c\<in>set name. isWhiteSpace c) \<longrightarrow> saveFilename name = js ''photo-collection.pdf'') \<and>
   (\<not> (\<forall>c\<in>set name. isWhiteSpace c) \<longrightarrow>
      saveFilename name = sanitizeFilename (trim name) @ js ''.pdf'') \<and>
   (\<not> (\<forall>c\<in>set name. isWhiteSpace c) \<longrightarrow>
      (\<exists>pre core post. name = pre @ core @ post \<and> (\<forall>c\<in>set pre. isWhiteSpace c) \<and>
         (\<forall>c\<in>set post. isWhiteSpace c) \<and> core \<noteq> [] \<and> \<not> isWhiteSpace (hd core) \<and>
         \<not> isWhiteSpace (last core) \<and> trim name = core)) \<and>
   ((\<forall>c\<in>set pre. isWhiteSpace c) \<and> (\<forall>c\<in>set post. isWhiteSpace c) \<and> core \<noteq> [] \<and>
      \<not> isWhiteSpace (hd core) \<and> \<not> isWhiteSpace (last core) \<longrightarrow>
      saveFilename (pre @ core @ post)
        = map (\<lambda>c. if c \<in> {47, 92, 63, 37, 42, 58, 124, 34, 60, 62} then 45 else c) core
            @ [46, 112, 100, 102]) \<and>
   sanitizeFilename s
     = map (\<lambda>c. if c \<in> {47, 92, 63, 37, 42, 58, 124, 34, 60, 62} then 45 else c) s \<and>
   js ''photo-collection.pdf''
     = [112, 104, 111, 116, 111, 45, 99, 111, 108, 108, 101, 99, 116, 105, 111, 110,
        46, 112, 100, 102]"
proof -
  have A: "\<forall>c\<in>set (saveFilename name). c \<notin> {47, 92, 63, 37, 42, 58, 124, 34, 60, 62}"
  proof
    fix c assume c: "c \<in> set (saveFilename name)"
    have "c \<notin> set invalidChars"
    proof (cases "trim name = []")
      case True
      then have "c \<in> set (js ''photo-collection'') \<union> set (js ''.pdf'')"
        using c by (simp add: saveFilename_def)
      then show ?thesis by (rule literal_clean)
    next
      case False
      then have "c \<in> set (sanitizeFilename (trim name)) \<or> c \<in> set (js ''.pdf'')"
        using c by (simp add: saveFilename_def)
      then show ?thesis using sanitize_clean[of c "trim name"] literal_clean[of c] by blast
    qed
    then show "c \<notin> {47, 92, 63, 37, 42, 58, 124, 34, 60, 62}" unfolding invalidChars_set .
  qed
  have B: "(\<forall>c\<in>set name. isWhiteSpace c) \<longrightarrow> saveFilename name = js ''photo-collection.pdf''"
  proof
    assume "\<forall>c\<in>set name. isWhiteSpace c"
    then have "trim name = []" using trim_empty_iff[of name] by blast
    then show "saveFilename name = js ''photo-collection.pdf''"
      by (simp add: saveFilename_def js_def)
  qed
  have C: "\<not> (\<forall>c\<in>set name. isWhiteSpace c) \<longrightarrow>
      saveFilename name = sanitizeFilename (trim name) @ js ''.pdf''"
  proof
    assume "\<not> (\<forall>c\<in>set name. isWhiteSpace c)"
    then have "trim name \<noteq> []" using trim_empty_iff[of name] by blast
    then show "saveFilename name = sanitizeFilename (trim name) @ js ''.pdf''"
      by (simp add: saveFilename_def)
  qed
  have D: "\<not> (\<forall>c\<in>set name. isWhiteSpace c) \<longrightarrow>
      (\<exists>pre core post. name = pre @ core @ post \<and> (\<forall>c\<in>set pre. isWhiteSpace c) \<and>
         (\<forall>c\<in>set post. isWhiteSpace c) \<and> core \<noteq> [] \<and> \<not> isWhiteSpace (hd core) \<and>
         \<not> isWhiteSpace (last core) \<and> trim name = core)"
  proof
    assume "\<not> (\<forall>c\<in>set name. isWhiteSpace c)"
    then have "trim name \<noteq> []" using trim_empty_iff[of name] by blast
    then show "\<exists>pre core post. name = pre @ core @ post \<and> (\<forall>c\<in>set pre. isWhiteSpace c) \<and>
         (\<forall>c\<in>set post. isWhiteSpace c) \<and> core \<noteq> [] \<and> \<not> isWhiteSpace (hd core) \<and>
         \<not> isWhiteSpace (last core) \<and> trim name = core" by (rule trim_splits)
  qed
  have E: "(\<forall>c\<in>set pre. isWhiteSpace c) \<and> (\<forall>c\<in>set post. isWhiteSpace c) \<and> core \<noteq> [] \<and>
      \<not> isWhiteSpace (hd core) \<and> \<not> isWhiteSpace (last core) \<longrightarrow>
      saveFilename (pre @ core @ post)
        = map (\<lambda>c. if c \<in> {47, 92, 63, 37, 42, 58, 124, 34, 60, 62} then 45 else c) core
            @ [46, 112, 100, 102]"
  proof
    assume a: "(\<forall>c\<in>set pre. isWhiteSpace c) \<and> (\<forall>c\<in>set post. isWhiteSpace c) \<and> core \<noteq> [] \<and>
      \<not> isWhiteSpace (hd core) \<and> \<not> isWhiteSpace (last core)"
    then have t: "trim (pre @ core @ post) = core" by (intro trim_core) simp_all
    have "saveFilename (pre @ core @ post) = sanitizeFilename core @ js ''.pdf''"
      using a unfolding saveFilename_def t by simp
    then show "saveFilename (pre @ core @ post)
        = map (\<lambda>c. if c \<in> {47, 92, 63, 37, 42, 58, 124, 34, 60, 62} then 45 else c) core
            @ [46, 112, 100, 102]"
      by (simp only: sanitizeFilename_map js_literals)
  qed
  show ?thesis by (intro conjI A B C D E sanitizeFilename_map js_literals(1))
qed

theorem saveFilename_sanitized_witness:
  "saveFilename ([32, 32] @ [97, 47, 98, 58, 99, 63] @ [32]) = [97, 45, 98, 45, 99, 45, 46, 112, 100, 102] \<and>
   saveFilename [32, 12288, 9] = js ''photo-collection.pdf'' \<and>
   47 \<notin> set (saveFilename ([32, 32] @ [97, 47, 98, 58, 99, 63] @ [32]))"
proof -
  have w: "\<forall>c\<in>set [32, 12288, 9]. isWhiteSpace c"
    by (simp add: isWhiteSpace_def)
  have p: "(\<forall>c\<in>set [32, 32]. isWhiteSpace c) \<and> (\<forall>c\<in>set [32]. isWhiteSpace c) \<and>
      [97, 47, 98, 58, 99, 63 :: jschar] \<noteq> [] \<and> \<not> isWhiteSpace (hd [97, 47, 98, 58, 99, 63]) \<and>
      \<not> isWhiteSpace (last [97, 47, 98, 58, 99, 63])"
    by (simp add: isWhiteSpace_def)
  note t1 = saveFilename_sanitized[of "[32, 32] @ [97, 47, 98, 58, 99, 63] @ [32]" "[32, 32]" "[32]"
      "[97, 47, 98, 58, 99, 63]" "[]"]
  note t2 = saveFilename_sanitized[of "[32, 12288, 9]" "[]" "[]" "[]" "[]"]
  have e: "saveFilename ([32, 32] @ [97, 47, 98, 58, 99, 63] @ [32])
      = map (\<lambda>c. if c \<in> {47, 92, 63, 37, 42, 58, 124, 34, 60, 62} then 45 else c)
          [97, 47, 98, 58, 99, 63] @ [46, 112, 100, 102]"
    using t1 p by blast
  have b: "saveFilename [32, 12288, 9] = js ''photo-collection.pdf''" using t2 w by blast
  have "saveFilename ([32, 32] @ [97, 47, 98, 58, 99, 63] @ [32]) = [97, 45, 98, 45, 99, 45, 46, 112, 100, 102]"
    unfolding e by simp
  then show ?thesis using b by simp
qed



text \<open>
  C9. In the mode \<open>dimensions\<close> with the aspect ratio unlocked, a side that is missing
  (0) is replaced by the side of the image and a given side is used as it is: only the
  width \<open>W\<close> given yields \<open>W\<close> by the image height, only the height \<open>H\<close> given yields the
  image width by \<open>H\<close>, and none given yields the size of the image. The preview computes
  the same for an image whose sides are known and not 0.
\<close>

theorem unlocked_dimensions_substitute:
  "W \<noteq> 0 \<Longrightarrow> H \<noteq> 0 \<Longrightarrow>
   targetDimensions ModeDimensions \<lparr>width = W, height = 0\<rparr> p s False iw ih
     = Some \<lparr>width = W, height = ih\<rparr> \<and>
   targetDimensions ModeDimensions \<lparr>width = 0, height = H\<rparr> p s False iw ih
     = Some \<lparr>width = iw, height = H\<rparr> \<and>
   targetDimensions ModeDimensions \<lparr>width = 0, height = 0\<rparr> p s False iw ih
     = Some \<lparr>width = iw, height = ih\<rparr> \<and>
   (iw \<noteq> 0 \<and> ih \<noteq> 0 \<longrightarrow>
      calculateTargetDimensions ModeDimensions \<lparr>width = W, height = 0\<rparr> p s False iw ih
        = Some \<lparr>width = W, height = ih\<rparr> \<and>
      calculateTargetDimensions ModeDimensions \<lparr>width = 0, height = H\<rparr> p s False iw ih
        = Some \<lparr>width = iw, height = H\<rparr> \<and>
      calculateTargetDimensions ModeDimensions \<lparr>width = 0, height = 0\<rparr> p s False iw ih
        = Some \<lparr>width = iw, height = ih\<rparr>)"
  by (simp add: targetDimensions_def calculateTargetDimensions_def)

theorem unlocked_dimensions_substitute_witness:
  "targetDimensions ModeDimensions \<lparr>width = 800, height = 0\<rparr> 50 small False 1000 500
     = Some \<lparr>width = 800, height = 500\<rparr> \<and>
   targetDimensions ModeDimensions \<lparr>width = 0, height = 600\<rparr> 50 small False 1000 500
     = Some \<lparr>width = 1000, height = 600\<rparr> \<and>
   targetDimensions ModeDimensions \<lparr>width = 0, height = 0\<rparr> 50 small False 1000 500
     = Some \<lparr>width = 1000, height = 500\<rparr> \<and>
   calculateTargetDimensions ModeDimensions \<lparr>width = 800, height = 0\<rparr> 50 small False 1000 500
     = Some \<lparr>width = 800, height = 500\<rparr>"
  using unlocked_dimensions_substitute[of 800 600 50 small 1000 500] by simp

text \<open>
  C2. The claim has the rows and columns of a custom grid confined to 1 to 5, a 0 or a
  negative entry becoming 1. The handlers of the two fields keep every integer other than
  0: the entry \<open>7\<close> gives 7 rows, and with 2 columns 14 images per page; the entry \<open>-2\<close>
  gives \<open>-2\<close> rows and \<open>-4\<close> images per page.
\<close>

theorem grid_input_not_clamped:
  "gridInput (js ''7'') = 7 \<and>
   imagesPerPage (layoutGrid LayoutCustom 2 (gridInput (js ''7''))) = 14 \<and>
   gridInput (js ''-2'') = - 2 \<and>
   imagesPerPage (layoutGrid LayoutCustom 2 (gridInput (js ''-2''))) = - 4"
  by code_simp

text \<open>
  C5. For a grid of positive rows and columns, with \<open>imagesPerPage = rows * cols\<close>, and a
  deck of \<open>n\<close> images (an array, so far fewer than \<open>2 ^ 53\<close>), the document has one
  placement per image, in order, and placement \<open>i\<close> has page index
  \<open>floor (i / imagesPerPage)\<close>, which is also the page it is drawn on, row
  \<open>floor ((i mod imagesPerPage) / cols)\<close>, column \<open>(i mod imagesPerPage) mod cols\<close>,
  \<open>x = margin + col * boxWidth\<close> and \<open>y = margin + titleSpace + row * boxHeight\<close>, where
  \<open>boxWidth = availableWidth / cols\<close> and \<open>boxHeight = availableHeight / rows\<close>, these four
  operations in binary64.
\<close>

theorem placement_plan_entries:
  "g = layoutGrid (imageLayout st) (customCols st) (customRows st) \<Longrightarrow>
   0 < cols g \<Longrightarrow> 0 < rows g \<Longrightarrow> i < n \<Longrightarrow> int n < 2 ^ 53 \<Longrightarrow>
   (\<exists>pdf. generatePDF st n = Inr pdf \<and> length (images pdf) = n \<and>
      imagesPerPage g = cols g * rows g \<and>
      itemIndex (images pdf ! i) = i \<and>
      pageIndex (images pdf ! i) = int i div imagesPerPage g \<and>
      int (onPage (images pdf ! i)) = int i div imagesPerPage g \<and>
      rowIndex (images pdf ! i) = (int i mod imagesPerPage g) div cols g \<and>
      colIndex (images pdf ! i) = (int i mod imagesPerPage g) mod cols g \<and>
      posX (images pdf ! i) =
        jadd (of_int (margin st))
          (jmul (of_int (colIndex (images pdf ! i)))
             (fdiv (of_int (availableWidth st)) (of_int (cols g)))) \<and>
      posY (images pdf ! i) =
        jadd (of_int (margin st + titleSpace st))
          (jmul (of_int (rowIndex (images pdf ! i)))
             (fdiv (of_int (availableHeight st)) (of_int (rows g)))))"
proof -
  assume g: "g = layoutGrid (imageLayout st) (customCols st) (customRows st)"
    and c: "0 < cols g" and r: "0 < rows g" and i: "i < n" and n: "int n < 2 ^ 53"
  have prod: "imagesPerPage g = cols g * rows g" unfolding g by (rule layoutGrid_product)
  have ipp: "0 < imagesPerPage g" using c r prod by simp
  have n0: "0 < n" using i by simp
  define pdf where "pdf = (placeImages st n)\<lparr>savedAs := Some (saveFilename (pdfFilename st))\<rparr>"
  have im: "images pdf = images (placeImages st n)" by (simp add: pdf_def)
  note e = placed_entry[of st i n, folded g, OF c r i n]
  have "generatePDF st n = Inr pdf" unfolding pdf_def using g ipp n0 by (rule generatePDF_placed)
  moreover have "length (images pdf) = n" using placed_pages(2)[OF g ipp n0] by (simp only: im)
  moreover have "posX (images pdf ! i) =
        jadd (of_int (margin st))
          (jmul (of_int (colIndex (images pdf ! i)))
             (fdiv (of_int (availableWidth st)) (of_int (cols g))))"
    using e(6) unfolding im imageWidth_def g .
  moreover have "posY (images pdf ! i) =
        jadd (of_int (margin st + titleSpace st))
          (jmul (of_int (rowIndex (images pdf ! i)))
             (fdiv (of_int (availableHeight st)) (of_int (rows g))))"
    using e(7) unfolding im imageHeight_def g .
  ultimately show ?thesis using prod e(1-5) unfolding im[symmetric]
    by (intro exI[of _ pdf] conjI)
qed


theorem placement_plan_entries_witness:
  "\<exists>pdf. generatePDF \<lparr>pageSize = a4, orientation = portrait, imageLayout = Layout4, margin = 10,
            title = js ''My Photo Collection'', customRows = 2, customCols = 2,
            pdfFilename = js ''photo-collection''\<rparr> 5 = Inr pdf \<and>
         length (images pdf) = 5 \<and> itemIndex (images pdf ! 3) = 3 \<and>
         pageIndex (images pdf ! 3) = 0 \<and> onPage (images pdf ! 3) = 0 \<and>
         rowIndex (images pdf ! 3) = 1 \<and> colIndex (images pdf ! 3) = 1 \<and>
         posX (images pdf ! 3) = 105 \<and> posY (images pdf ! 3) = 317 / 2"
proof -
  let ?st = "\<lparr>pageSize = a4, orientation = portrait, imageLayout = Layout4, margin = 10,
            title = js ''My Photo Collection'', customRows = 2, customCols = 2,
            pdfFilename = js ''photo-collection''\<rparr>"
  let ?g = "layoutGrid Layout4 2 2"
  have g: "?g = layoutGrid (imageLayout ?st) (customCols ?st) (customRows ?st)" by simp
  have c: "0 < cols ?g" and r: "0 < rows ?g" by (simp_all add: layoutGrid_def)
  have g4: "imagesPerPage ?g = 4" "cols ?g = 2" "rows ?g = 2" by (simp_all add: layoutGrid_def)
  have aw: "availableWidth ?st = 190" "availableHeight ?st = 257" "margin ?st = 10" "titleSpace ?st = 20"
    by (simp_all add: availableWidth_def availableHeight_def pageExtent_def PAGE_SIZES_def
          titleSpace_def js_def)
  have x: "jadd 10 (jmul 1 (fdiv 190 2)) = 105" by code_simp
  have y: "jadd 30 (jmul 1 (fdiv 257 2)) = 317 / 2" by code_simp
  from placement_plan_entries[OF g c r, of 3 5] obtain pdf where
    p: "generatePDF ?st 5 = Inr pdf" "length (images pdf) = 5" "itemIndex (images pdf ! 3) = 3"
      "pageIndex (images pdf ! 3) = int 3 div imagesPerPage ?g"
      "int (onPage (images pdf ! 3)) = int 3 div imagesPerPage ?g"
      "rowIndex (images pdf ! 3) = (int 3 mod imagesPerPage ?g) div cols ?g"
      "colIndex (images pdf ! 3) = (int 3 mod imagesPerPage ?g) mod cols ?g"
      "posX (images pdf ! 3) =
        jadd (of_int (margin ?st))
          (jmul (of_int (colIndex (images pdf ! 3)))
             (fdiv (of_int (availableWidth ?st)) (of_int (cols ?g))))"
      "posY (images pdf ! 3) =
        jadd (of_int (margin ?st + titleSpace ?st))
          (jmul (of_int (rowIndex (images pdf ! 3)))
             (fdiv (of_int (availableHeight ?st)) (of_int (rows ?g))))"
    by auto
  have row: "rowIndex (images pdf ! 3) = 1" and col: "colIndex (images pdf ! 3) = 1"
    using p(6,7) by (simp_all add: g4)
  have "pageIndex (images pdf ! 3) = 0" "onPage (images pdf ! 3) = 0"
    using p(4,5) by (simp_all add: g4)
  moreover have "posX (images pdf ! 3) = 105" using p(8) x by (simp add: aw g4 col)
  moreover have "posY (images pdf ! 3) = 317 / 2" using p(9) y by (simp add: aw g4 row)
  ultimately show ?thesis using p(1-3) row col by (intro exI[of _ pdf] conjI)
qed

text \<open>
  C6. For at least one image and a grid of positive rows and columns, the document has
  \<open>ceil (n / imagesPerPage)\<close> pages and every page carries a placement; the number
  \<open>totalPages\<close> that the source computes in binary64 is the same. Five images in
  the layout of four give two pages, four placements on the first and one on the second,
  at row 0 and column 0.
\<close>

theorem page_count:
  "g = layoutGrid (imageLayout st) (customCols st) (customRows st) \<Longrightarrow>
   0 < cols g \<Longrightarrow> 0 < rows g \<Longrightarrow> 1 \<le> n \<Longrightarrow>
   (\<exists>pdf. generatePDF st n = Inr pdf \<and>
      int (pages pdf) = \<lceil>(of_nat n :: rat) / of_int (imagesPerPage g)\<rceil> \<and>
      (\<forall>p<pages pdf. \<exists>i<n. onPage (images pdf ! i) = p) \<and>
      (int n < 2 ^ 53 \<longrightarrow> totalPages st n = int (pages pdf)) \<and>
      (imageLayout st = Layout4 \<and> n = 5 \<longrightarrow>
         pages pdf = 2 \<and> map onPage (images pdf) = [0, 0, 0, 0, 1] \<and>
         rowIndex (images pdf ! 4) = 0 \<and> colIndex (images pdf ! 4) = 0))"
proof -
  assume g: "g = layoutGrid (imageLayout st) (customCols st) (customRows st)"
    and c: "0 < cols g" and r: "0 < rows g" and n: "1 \<le> n"
  have prod: "imagesPerPage g = cols g * rows g" unfolding g by (rule layoutGrid_product)
  have ipp: "0 < imagesPerPage g" using c r prod by simp
  have n0: "0 < n" using n by simp
  define pdf where "pdf = (placeImages st n)\<lparr>savedAs := Some (saveFilename (pdfFilename st))\<rparr>"
  have im: "images pdf = images (placeImages st n)" by (simp add: pdf_def)
  have pg: "pages pdf = pages (placeImages st n)" by (simp add: pdf_def)
  have gen: "generatePDF st n = Inr pdf" unfolding pdf_def using g ipp n0 by (rule generatePDF_placed)
  have pages: "int (pages pdf) = (int n - 1) div imagesPerPage g + 1"
    using placed_pages(1)[OF g ipp n0] by (simp only: pg)
  have on: "\<And>i. i < n \<Longrightarrow> int (onPage (images pdf ! i)) = int i div imagesPerPage g"
    using placed_pages(3)[OF g ipp n0] by (simp only: im)
  have len: "length (images pdf) = n" using placed_pages(2)[OF g ipp n0] by (simp only: im)
  have ceil: "int (pages pdf) = \<lceil>(of_nat n :: rat) / of_int (imagesPerPage g)\<rceil>"
    using ceiling_pages[of "imagesPerPage g" "int n"] ipp n0 pages by simp
  have nonempty: "\<forall>p<pages pdf. \<exists>i<n. onPage (images pdf ! i) = p"
  proof (intro allI impI)
    fix p assume "p < pages pdf"
    then have p: "int p \<le> (int n - 1) div imagesPerPage g" using pages by linarith
    note pe = page_not_empty[OF ipp n0 p]
    have "int (onPage (images pdf ! (p * nat (imagesPerPage g)))) = int p"
      using on[OF pe(1)] pe(2) by simp
    then show "\<exists>i<n. onPage (images pdf ! i) = p" using pe(1) by auto
  qed
  have scen: "imageLayout st = Layout4 \<and> n = 5 \<longrightarrow>
         pages pdf = 2 \<and> map onPage (images pdf) = [0, 0, 0, 0, 1] \<and>
         rowIndex (images pdf ! 4) = 0 \<and> colIndex (images pdf ! 4) = 0"
  proof (intro impI)
    assume a: "imageLayout st = Layout4 \<and> n = 5"
    then have g4: "imagesPerPage g = 4" "cols g = 2" by (simp_all add: g layoutGrid_def)
    have n5: "n = 5" using a by simp
    have p2: "pages pdf = 2" using pages g4 n5 by simp
    have o: "\<And>i. i < 5 \<Longrightarrow> int (onPage (images pdf ! i)) = int i div 4"
      using on g4 n5 by simp
    have l5: "length (images pdf) = 5" using len n5 by simp
    have "int (onPage (images pdf ! 0)) = 0" using o[of 0] by simp
    moreover have "int (onPage (images pdf ! 1)) = 0" using o[of 1] by simp
    moreover have "int (onPage (images pdf ! 2)) = 0" using o[of 2] by simp
    moreover have "int (onPage (images pdf ! 3)) = 0" using o[of 3] by simp
    moreover have "int (onPage (images pdf ! 4)) = 1" using o[of 4] by simp
    ultimately have "onPage (images pdf ! 0) = 0 \<and> onPage (images pdf ! 1) = 0 \<and>
      onPage (images pdf ! 2) = 0 \<and> onPage (images pdf ! 3) = 0 \<and> onPage (images pdf ! 4) = 1"
      by simp
    then have m: "map onPage (images pdf) = [0, 0, 0, 0, 1]"
      using list5[OF l5, of onPage] by simp
    have i4: "(4::nat) < n" "int n < 2 ^ 53" using n5 by simp_all
    note e = placed_entry[of st 4 n, folded g, OF c r i4]
    have "rowIndex (images pdf ! 4) = (int 4 mod 4) div 2" using e(4) unfolding im g4 .
    moreover have "colIndex (images pdf ! 4) = (int 4 mod 4) mod 2" using e(5) unfolding im g4 .
    ultimately have "rowIndex (images pdf ! 4) = 0 \<and> colIndex (images pdf ! 4) = 0" by simp
    then show "pages pdf = 2 \<and> map onPage (images pdf) = [0, 0, 0, 0, 1] \<and>
         rowIndex (images pdf ! 4) = 0 \<and> colIndex (images pdf ! 4) = 0"
      using p2 m by simp
  qed
  have tp: "int n < 2 ^ 53 \<longrightarrow> totalPages st n = int (pages pdf)"
    using totalPages_eq[OF g ipp n0] ceil by simp
  show ?thesis by (rule exI[of _ pdf]) (intro conjI gen ceil nonempty tp scen)
qed


theorem page_count_witness:
  "\<exists>pdf. generatePDF \<lparr>pageSize = a4, orientation = portrait, imageLayout = Layout4, margin = 10,
            title = js ''My Photo Collection'', customRows = 2, customCols = 2,
            pdfFilename = js ''photo-collection''\<rparr> 5 = Inr pdf \<and>
         pages pdf = 2 \<and> map onPage (images pdf) = [0, 0, 0, 0, 1] \<and>
         rowIndex (images pdf ! 4) = 0 \<and> colIndex (images pdf ! 4) = 0"
proof -
  let ?st = "\<lparr>pageSize = a4, orientation = portrait, imageLayout = Layout4, margin = 10,
            title = js ''My Photo Collection'', customRows = 2, customCols = 2,
            pdfFilename = js ''photo-collection''\<rparr>"
  let ?g = "layoutGrid Layout4 2 2"
  have g: "?g = layoutGrid (imageLayout ?st) (customCols ?st) (customRows ?st)" by simp
  have c: "0 < cols ?g" and r: "0 < rows ?g" by (simp_all add: layoutGrid_def)
  have n: "(1::nat) \<le> 5" by simp
  from page_count[OF g c r n] obtain pdf where
    p: "generatePDF ?st 5 = Inr pdf"
      "imageLayout ?st = Layout4 \<and> (5::nat) = 5 \<longrightarrow>
         pages pdf = 2 \<and> map onPage (images pdf) = [0, 0, 0, 0, 1] \<and>
         rowIndex (images pdf ! 4) = 0 \<and> colIndex (images pdf ! 4) = 0"
    by (elim exE conjE)
  from p(2) have "pages pdf = 2 \<and> map onPage (images pdf) = [0, 0, 0, 0, 1] \<and>
         rowIndex (images pdf ! 4) = 0 \<and> colIndex (images pdf ! 4) = 0" by simp
  then show ?thesis using p(1) by (intro exI[of _ pdf] conjI) simp_all
qed



text \<open>
  C8. In the mode \<open>percentage\<close>, for an image of positive width and height and a positive
  integer percentage (the slider moves in steps of 1), each side of the result is the side
  of the image times the percentage, divided by 100 and rounded to the nearest integer
  (a half upwards), each side on its own; 1000 by 500 at 50 percent gives 500 by 250. The
  products are pixel counts times a percentage, far below \<open>2 ^ 52\<close>; in that range the
  binary64 quotient rounds to the same integer as the exact one.
\<close>

theorem percentage_rounds_each_axis:
  "0 < iw \<Longrightarrow> 0 < ih \<Longrightarrow> 0 < pct \<Longrightarrow> iw * pct < 2 ^ 52 \<Longrightarrow> ih * pct < 2 ^ 52 \<Longrightarrow>
   targetDimensions ModePercentage rd pct ps lock iw ih
     = Some \<lparr>width = \<lfloor>(of_int (iw * pct) / 100 + 1/2 :: rat)\<rfloor>,
             height = \<lfloor>(of_int (ih * pct) / 100 + 1/2 :: rat)\<rfloor>\<rparr> \<and>
   calculateTargetDimensions ModePercentage rd pct ps lock iw ih
     = Some \<lparr>width = \<lfloor>(of_int (iw * pct) / 100 + 1/2 :: rat)\<rfloor>,
             height = \<lfloor>(of_int (ih * pct) / 100 + 1/2 :: rat)\<rfloor>\<rparr> \<and>
   targetDimensions ModePercentage rd 50 ps lock 1000 500 = Some \<lparr>width = 500, height = 250\<rparr>"
proof -
  assume a: "0 < iw" "0 < ih" "0 < pct" "iw * pct < 2 ^ 52" "ih * pct < 2 ^ 52"
  have w: "Math_round (fdiv (of_int (iw * pct)) 100) = \<lfloor>(of_int (iw * pct) / 100 + 1/2 :: rat)\<rfloor>"
    using a by (intro percentage_axis) simp_all
  have h: "Math_round (fdiv (of_int (ih * pct)) 100) = \<lfloor>(of_int (ih * pct) / 100 + 1/2 :: rat)\<rfloor>"
    using a by (intro percentage_axis) simp_all
  have t: "targetDimensions ModePercentage rd pct ps lock iw ih
     = Some \<lparr>width = \<lfloor>(of_int (iw * pct) / 100 + 1/2 :: rat)\<rfloor>,
             height = \<lfloor>(of_int (ih * pct) / 100 + 1/2 :: rat)\<rfloor>\<rparr>"
    unfolding targetDimensions_def by (simp only: ResizeMode.case w h)
  have c: "calculateTargetDimensions ModePercentage rd pct ps lock iw ih
     = targetDimensions ModePercentage rd pct ps lock iw ih"
    using a by (simp add: calculateTargetDimensions_def)
  have w5: "Math_round (fdiv (of_int (1000 * 50)) 100) = 500"
    using percentage_axis[of "1000 * 50"] round_hundredth[of "1000 * 50"] by simp
  have h5: "Math_round (fdiv (of_int (500 * 50)) 100) = 250"
    using percentage_axis[of "500 * 50"] round_hundredth[of "500 * 50"] by simp
  have s: "targetDimensions ModePercentage rd 50 ps lock 1000 500 = Some \<lparr>width = 500, height = 250\<rparr>"
    unfolding targetDimensions_def by (simp only: ResizeMode.case w5 h5)
  show ?thesis using t c s by (simp only:)
qed

theorem percentage_rounds_each_axis_witness:
  "targetDimensions ModePercentage \<lparr>width = 800, height = 600\<rparr> 33 small True 1000 500
     = Some \<lparr>width = 330, height = 165\<rparr> \<and>
   calculateTargetDimensions ModePercentage \<lparr>width = 800, height = 600\<rparr> 33 small True 1000 500
     = Some \<lparr>width = 330, height = 165\<rparr>"
  using percentage_rounds_each_axis[of 1000 500 33 "\<lparr>width = 800, height = 600\<rparr>" small True]
    round_hundredth[of "1000 * 33"] round_hundredth[of "500 * 33"]
  by simp




text \<open>
  C7. The claim: with the aspect ratio locked and only the width \<open>W\<close> given, the result is
  \<open>W\<close> wide and \<open>round (h * W / w)\<close> high. The source computes
  \<open>Math.round((img.height / img.width) * targetWidth)\<close>, two binary64 operations. For an
  image of 98 by 1 and \<open>W = 49\<close> the quotient \<open>1 / 98\<close> rounds down, the product is
  \<open>0.49999999999999994\<close>, and the height is 0, where \<open>h * W / w\<close> is exactly one half and
  rounds to 1.
\<close>

theorem one_side_given_counterexample:
  "targetDimensions ModeDimensions \<lparr>width = 49, height = 0\<rparr> 50 small True 98 1
     = Some \<lparr>width = 49, height = 0\<rparr> \<and>
   Math_round (of_int (1 * 49) / of_int 98) = 1"
  by code_simp

text \<open>
  C7, as amended. With the aspect ratio locked and only the width \<open>W\<close> given, the width of
  the result is exactly \<open>W\<close>, and its height is \<open>round (h * W / w)\<close>, except that where
  \<open>h * W / w\<close> lies exactly halfway between two integers the height may be the lower of the
  two; and likewise with only the height given. Here \<open>h * W\<close> and \<open>w * H\<close> are below
  \<open>2 ^ 50\<close>.
\<close>

theorem one_side_given_nearest:
  "0 < iw \<Longrightarrow> 0 < ih \<Longrightarrow> 0 < W \<Longrightarrow> ih * W < 2 ^ 50 \<Longrightarrow> 0 < H \<Longrightarrow> iw * H < 2 ^ 50 \<Longrightarrow>
   (\<exists>d. targetDimensions ModeDimensions \<lparr>width = W, height = 0\<rparr> pct ps True iw ih = Some d \<and>
        calculateTargetDimensions ModeDimensions \<lparr>width = W, height = 0\<rparr> pct ps True iw ih = Some d \<and>
        width d = W \<and>
        (height d = Math_round (of_int (ih * W) / of_int iw) \<or>
         (of_int (ih * W) / of_int iw :: rat) = of_int (Math_round (of_int (ih * W) / of_int iw)) - 1/2 \<and>
         height d = Math_round (of_int (ih * W) / of_int iw) - 1)) \<and>
   (\<exists>d. targetDimensions ModeDimensions \<lparr>width = 0, height = H\<rparr> pct ps True iw ih = Some d \<and>
        calculateTargetDimensions ModeDimensions \<lparr>width = 0, height = H\<rparr> pct ps True iw ih = Some d \<and>
        height d = H \<and>
        (width d = Math_round (of_int (iw * H) / of_int ih) \<or>
         (of_int (iw * H) / of_int ih :: rat) = of_int (Math_round (of_int (iw * H) / of_int ih)) - 1/2 \<and>
         width d = Math_round (of_int (iw * H) / of_int ih) - 1))"
proof -
  assume a: "0 < iw" "0 < ih" "0 < W" "ih * W < 2 ^ 50" "0 < H" "iw * H < 2 ^ 50"
  let ?dw = "\<lparr>width = W, height = Math_round (jmul (fdiv (of_int ih) (of_int iw)) (of_int W))\<rparr>"
  let ?dh = "\<lparr>width = Math_round (jmul (fdiv (of_int iw) (of_int ih)) (of_int H)), height = H\<rparr>"
  have tw: "targetDimensions ModeDimensions \<lparr>width = W, height = 0\<rparr> pct ps True iw ih = Some ?dw"
    using a by (simp add: targetDimensions_def jdiv_Some)
  have cw: "calculateTargetDimensions ModeDimensions \<lparr>width = W, height = 0\<rparr> pct ps True iw ih = Some ?dw"
    using a tw by (simp add: calculateTargetDimensions_def)
  have th: "targetDimensions ModeDimensions \<lparr>width = 0, height = H\<rparr> pct ps True iw ih = Some ?dh"
    using a by (simp add: targetDimensions_def jdiv_Some)
  have ch: "calculateTargetDimensions ModeDimensions \<lparr>width = 0, height = H\<rparr> pct ps True iw ih = Some ?dh"
    using a th by (simp add: calculateTargetDimensions_def)
  note rw = round_ratio_times[OF a(2) a(1) a(3) a(4)]
  note rh = round_ratio_times[OF a(1) a(2) a(5) a(6)]
  have 1: "\<exists>d. targetDimensions ModeDimensions \<lparr>width = W, height = 0\<rparr> pct ps True iw ih = Some d \<and>
        calculateTargetDimensions ModeDimensions \<lparr>width = W, height = 0\<rparr> pct ps True iw ih = Some d \<and>
        width d = W \<and>
        (height d = Math_round (of_int (ih * W) / of_int iw) \<or>
         (of_int (ih * W) / of_int iw :: rat) = of_int (Math_round (of_int (ih * W) / of_int iw)) - 1/2 \<and>
         height d = Math_round (of_int (ih * W) / of_int iw) - 1)"
    using tw cw rw by (intro exI[of _ ?dw]) simp
  have 2: "\<exists>d. targetDimensions ModeDimensions \<lparr>width = 0, height = H\<rparr> pct ps True iw ih = Some d \<and>
        calculateTargetDimensions ModeDimensions \<lparr>width = 0, height = H\<rparr> pct ps True iw ih = Some d \<and>
        height d = H \<and>
        (width d = Math_round (of_int (iw * H) / of_int ih) \<or>
         (of_int (iw * H) / of_int ih :: rat) = of_int (Math_round (of_int (iw * H) / of_int ih)) - 1/2 \<and>
         width d = Math_round (of_int (iw * H) / of_int ih) - 1)"
    using th ch rh by (intro exI[of _ ?dh]) simp
  show ?thesis using 1 2 by (rule conjI)
qed

theorem one_side_given_nearest_witness:
  "(\<exists>d. targetDimensions ModeDimensions \<lparr>width = 500, height = 0\<rparr> 50 small True 1000 400 = Some d \<and>
        width d = 500 \<and> height d = 200) \<and>
   (\<exists>d. targetDimensions ModeDimensions \<lparr>width = 0, height = 300\<rparr> 50 small True 1000 400 = Some d \<and>
        height d = 300 \<and> width d = 750)"
proof -
  have r1: "Math_round (of_int (400 * 500) / of_int 1000) = 200" by code_simp
  have r2: "Math_round (of_int (1000 * 300) / of_int 400) = 750" by code_simp
  show ?thesis
    using one_side_given_nearest[of 1000 400 500 300 50 small] r1 r2 by auto
qed

text \<open>
  C1. The claim: the result is never 0 on either side, a side that would round to 0 being
  raised to 1 or replaced by the side of the image. An image of 1 by 1 at 1 percent yields
  0 by 0.
\<close>

theorem percentage_emits_zero_counterexample:
  "targetDimensions ModePercentage \<lparr>width = 800, height = 600\<rparr> 1 small True 1 1
     = Some \<lparr>width = 0, height = 0\<rparr>"
  by code_simp

text \<open>
  C1, as amended. For an image of positive width and height and settings that are not
  negative, neither side of the result is negative. Both sides are positive in the mode
  \<open>none\<close>, and in the modes \<open>dimensions\<close> and \<open>preset\<close> with the aspect ratio unlocked. In
  the mode \<open>percentage\<close> a side of the result is positive exactly when the side of the
  image times the percentage is at least 50, and is 0 otherwise: nothing raises it to 1.
\<close>

theorem resolved_size_not_negative:
  "0 < iw \<Longrightarrow> 0 < ih \<Longrightarrow> 0 \<le> width rd \<Longrightarrow> 0 \<le> height rd \<Longrightarrow> 0 \<le> pct \<Longrightarrow>
   (\<exists>d. targetDimensions mode rd pct ps lock iw ih = Some d \<and>
        calculateTargetDimensions mode rd pct ps lock iw ih = Some d \<and>
        0 \<le> width d \<and> 0 \<le> height d \<and>
        (mode = ModeNone \<or> (mode \<noteq> ModePercentage \<and> \<not> lock) \<longrightarrow> 0 < width d \<and> 0 < height d) \<and>
        (mode = ModePercentage \<and> iw * pct < 2 ^ 52 \<and> ih * pct < 2 ^ 52 \<longrightarrow>
           (0 < width d \<longleftrightarrow> 50 \<le> iw * pct) \<and> (0 < height d \<longleftrightarrow> 50 \<le> ih * pct)))"
proof -
  assume iw: "0 < iw" and ih: "0 < ih" and rw: "0 \<le> width rd" and rh: "0 \<le> height rd"
    and p: "0 \<le> pct"
  from targetDimensions_nonneg[OF iw ih rw rh p, of mode ps lock] obtain d where
    d: "targetDimensions mode rd pct ps lock iw ih = Some d" and n: "0 \<le> width d" "0 \<le> height d"
    by (elim exE conjE)
  have c: "calculateTargetDimensions mode rd pct ps lock iw ih = Some d"
    using iw ih d by (simp add: calculateTargetDimensions_def)
  have pos: "mode = ModeNone \<or> (mode \<noteq> ModePercentage \<and> \<not> lock) \<longrightarrow> 0 < width d \<and> 0 < height d"
    using targetDimensions_pos[OF iw ih rw rh _ d] by blast
  have pc: "mode = ModePercentage \<and> iw * pct < 2 ^ 52 \<and> ih * pct < 2 ^ 52 \<longrightarrow>
           (0 < width d \<longleftrightarrow> 50 \<le> iw * pct) \<and> (0 < height d \<longleftrightarrow> 50 \<le> ih * pct)"
  proof (intro impI)
    assume a: "mode = ModePercentage \<and> iw * pct < 2 ^ 52 \<and> ih * pct < 2 ^ 52"
    have w0: "0 \<le> iw * pct" and h0: "0 \<le> ih * pct" using iw ih p by simp_all
    have "d = \<lparr>width = Math_round (fdiv (of_int (iw * pct)) 100),
               height = Math_round (fdiv (of_int (ih * pct)) 100)\<rparr>"
      using d a by (simp add: targetDimensions_def)
    then have "width d = Math_round (fdiv (of_int (iw * pct)) 100)"
      "height d = Math_round (fdiv (of_int (ih * pct)) 100)" by simp_all
    then show "(0 < width d \<longleftrightarrow> 50 \<le> iw * pct) \<and> (0 < height d \<longleftrightarrow> 50 \<le> ih * pct)"
      using percentage_axis_pos[OF w0] percentage_axis_pos[OF h0] a by simp
  qed
  show ?thesis using d c n pos pc by (intro exI[of _ d] conjI)
qed

theorem resolved_size_not_negative_witness:
  "(\<exists>d. targetDimensions ModePercentage \<lparr>width = 800, height = 600\<rparr> 1 small True 1 1 = Some d \<and>
        0 \<le> width d \<and> 0 \<le> height d \<and> \<not> 0 < width d \<and> \<not> 0 < height d) \<and>
   (\<exists>d. targetDimensions ModeNone \<lparr>width = 800, height = 600\<rparr> 1 small True 1 1 = Some d \<and>
        0 < width d \<and> 0 < height d)"
  using resolved_size_not_negative[of 1 1 "\<lparr>width = 800, height = 600\<rparr>" 1 ModePercentage small True]
    resolved_size_not_negative[of 1 1 "\<lparr>width = 800, height = 600\<rparr>" 1 ModeNone small True]
  by auto


text \<open>
  C3. The claim: in every batch run, the processing of an image and the assembly of the
  archive alike, the percentages reported never decrease. In \<open>downloadAllAsZip\<close> two
  results are added, which reports 50 and 100, and the generation of the archive then
  reports what the library passes on, here 50 and 100: 100 is followed by 50.
\<close>

theorem zip_progress_restarts_counterexample:
  "downloadAllAsZipProgress [True, True] [50, 100] = [0, 50, 100, 50, 100] \<and>
   \<not> sorted (downloadAllAsZipProgress [True, True] [50, 100])"
  by code_simp

text \<open>
  C3, as amended. The percentages that one call of \<open>processImageInBrowser\<close> hands to
  \<open>onProgress\<close> never decrease. The reports of \<open>downloadAllAsZip\<close> are those of two phases,
  one after the other: while the results are added they never decrease, and while the
  archive is generated they are the rounded values of \<open>metadata.percent\<close> in the order the
  library reports them, which never decrease when those do not.
\<close>

theorem progress_sorted_within_phases:
  "sorted (processImageProgress s totalFormats) \<and>
   downloadAllAsZipProgress validResults percents
     = ([0] @ addFiles (length validResults) 0 validResults) @ map Math_round percents \<and>
   sorted ([0] @ addFiles (length validResults) 0 validResults) \<and>
   (sorted percents \<longrightarrow> sorted (map Math_round percents))"
  using processImageProgress_sorted[of s totalFormats]
    addFiles_phase_sorted[of "length validResults" validResults] sorted_map_round[of percents]
  by (simp add: downloadAllAsZipProgress_def)

theorem progress_sorted_within_phases_witness:
  "sorted (processImageProgress NotHeic 3) \<and>
   sorted ([0] @ addFiles 2 0 [True, True]) \<and>
   sorted (map Math_round [50, 100])"
proof -
  have "sorted [50, 100 :: rat]" by simp
  then show ?thesis
    using progress_sorted_within_phases[of NotHeic 3 "[True, True]" "[50, 100]"] by simp
qed


end
